theory Spec2Isabelle
  imports Main "HOL-Library.Log_Nat"
begin

section \<open>Errors raised by the Python code\<close>

text \<open>
  The messages of the \<^verbatim>\<open>ValueError\<close>s that \<^verbatim>\<open>compression_test.py\<close> raises:
  the two of \<^verbatim>\<open>run_length_decode_packed\<close> (odd length; a value that is not 0 or 1),
  the two of \<^verbatim>\<open>save_loader_file_no_dependencies\<close> (a key byte out of 0..255; a vote
  count out of -128..127), and the one of the builtin \<^verbatim>\<open>bytes\<close>.
\<close>

datatype value_error =
    OddLength
  | InvalidValue int
  | OutOfByteRange int
  | VoteOutOfRange int
  | BytesRange

datatype error = ValueError value_error | IndexError | ZeroDivisionError | OverflowError

section \<open>Run-length coding of key vectors\<close>

text \<open>
  The body of the \<^verbatim>\<open>for val in bits[1:]\<close> loop of \<^verbatim>\<open>run_length_encode_packed\<close>,
  with the loop variables \<^verbatim>\<open>current_val\<close>, \<^verbatim>\<open>count\<close> and \<^verbatim>\<open>encoded\<close> as arguments;
  the empty list is the code after the loop.
\<close>

fun rle_loop :: "int list \<Rightarrow> int \<Rightarrow> int \<Rightarrow> int list \<Rightarrow> int list" where
  "rle_loop [] current_val count encoded = encoded @ [count, current_val]"
| "rle_loop (val # rest) current_val count encoded =
     (if val = current_val then
        (if count < 255 then rle_loop rest current_val (count + 1) encoded
         else rle_loop rest current_val 1 (encoded @ [count, current_val]))
      else rle_loop rest val 1 (encoded @ [count, current_val]))"

definition run_length_encode_packed :: "int list \<Rightarrow> int list" where
  "run_length_encode_packed bits =
     (case bits of [] \<Rightarrow> [] | b # rest \<Rightarrow> rle_loop rest b 1 [])"

text \<open>
  The loop of \<^verbatim>\<open>run_length_decode_packed\<close> over the pairs \<^verbatim>\<open>encoded[i], encoded[i+1]\<close>.
  \<^verbatim>\<open>[val] * count\<close> is empty for a count below 1. A lone last element would make
  \<^verbatim>\<open>encoded[i+1]\<close> raise; the length test before the loop excludes it.
\<close>

fun rld_loop :: "int list \<Rightarrow> int list \<Rightarrow> error + int list" where
  "rld_loop [] decoded = Inr decoded"
| "rld_loop [count] decoded = Inl IndexError"
| "rld_loop (count # val # rest) decoded =
     (if \<not> (0 \<le> val \<and> val \<le> 1) then Inl (ValueError (InvalidValue val))
      else rld_loop rest (decoded @ replicate (nat count) val))"

definition run_length_decode_packed :: "int list \<Rightarrow> error + int list" where
  "run_length_decode_packed encoded =
     (if length encoded mod 2 \<noteq> 0 then Inl (ValueError OddLength)
      else rld_loop encoded [])"

text \<open>
  What the specification says decoding returns: the flat sequence read as (count, value)
  pairs, each value repeated count times, in order.
\<close>

fun spec_pairs :: "int list \<Rightarrow> (int \<times> int) list" where
  "spec_pairs (count # val # rest) = (count, val) # spec_pairs rest"
| "spec_pairs _ = []"

definition spec_expand :: "int list \<Rightarrow> int list" where
  "spec_expand encoded = concat (map (\<lambda>(count, val). replicate (nat count) val) (spec_pairs encoded))"

text \<open>The value elements of a flat sequence are the ones at odd positions.\<close>

definition value_elements :: "int list \<Rightarrow> int list" where
  "value_elements encoded = map snd (spec_pairs encoded)"

definition count_elements :: "int list \<Rightarrow> int list" where
  "count_elements encoded = map fst (spec_pairs encoded)"

section \<open>Packing the keys and the counters into bytes\<close>

text \<open>
  The builtin \<^verbatim>\<open>bytes(list)\<close> raises a \<^verbatim>\<open>ValueError\<close> unless every element is in
  \<^verbatim>\<open>range(0, 256)\<close>; a byte string is kept as the list of its values.
\<close>

definition py_bytes :: "int list \<Rightarrow> error + int list" where
  "py_bytes xs =
     (if \<forall>x \<in> set xs. 0 \<le> x \<and> x \<le> 255 then Inr xs else Inl (ValueError BytesRange))"

text \<open>
  \<^verbatim>\<open>save_loader_file_no_dependencies\<close>, the part that packs \<^verbatim>\<open>sdm.keys\<close>: the
  validation loop over \<^verbatim>\<open>keys_flat\<close>, then \<^verbatim>\<open>keys_bytes\<close> (the bytes that
  \<^verbatim>\<open>base64.b64encode\<close> receives).
\<close>

fun check_byte_range :: "int list \<Rightarrow> error + unit" where
  "check_byte_range [] = Inr ()"
| "check_byte_range (byte # rest) =
     (if \<not> (0 \<le> byte \<and> byte \<le> 255) then Inl (ValueError (OutOfByteRange byte))
      else check_byte_range rest)"

definition keys_bytes :: "int list list \<Rightarrow> error + int list" where
  "keys_bytes keys =
     (let rle_keys = map run_length_encode_packed keys;
          keys_flat = concat rle_keys
      in case check_byte_range keys_flat of
           Inl e \<Rightarrow> Inl e
         | Inr _ \<Rightarrow> py_bytes keys_flat)"

text \<open>
  \<^verbatim>\<open>main\<close>, the packing of one chunk key: \<^verbatim>\<open>bytes(run_length_encode_packed(key))\<close>.
\<close>

definition chunk_key_bytes :: "int list \<Rightarrow> error + int list" where
  "chunk_key_bytes key = py_bytes (run_length_encode_packed key)"

text \<open>
  The part that packs \<^verbatim>\<open>sdm.data\<close>: the nested loop that fills \<^verbatim>\<open>flat_data\<close>
  (one list for all rows, so the loop runs over the concatenated rows), then
  \<^verbatim>\<open>data_bytes\<close>.
\<close>

fun flat_data_loop :: "int list \<Rightarrow> int list \<Rightarrow> error + int list" where
  "flat_data_loop [] flat_data = Inr flat_data"
| "flat_data_loop (val # rest) flat_data =
     (if val < - 128 \<or> val > 127 then Inl (ValueError (VoteOutOfRange val))
      else if val < 0 then flat_data_loop rest (flat_data @ [val + 256])
      else flat_data_loop rest (flat_data @ [val]))"

definition data_bytes :: "int list list \<Rightarrow> error + int list" where
  "data_bytes data =
     (case flat_data_loop (concat data) [] of
        Inl e \<Rightarrow> Inl e
      | Inr flat_data \<Rightarrow> py_bytes flat_data)"

section \<open>The memory of compression\_test.py\<close>

text \<open>
  \<^verbatim>\<open>hamming_distance\<close> sums \<^verbatim>\<open>x != y\<close> over \<^verbatim>\<open>zip(a, b)\<close>, which stops at the end of
  the shorter vector.
\<close>

definition hamming_distance :: "int list \<Rightarrow> int list \<Rightarrow> int" where
  "hamming_distance a b = sum_list (map (\<lambda>(x, y). if x \<noteq> y then 1 else 0) (zip a b))"

text \<open>
  The fields of an \<^verbatim>\<open>SDM\<close> object: \<^verbatim>\<open>p\<close>, \<^verbatim>\<open>n\<close>, \<^verbatim>\<open>keys\<close> (the addresses),
  \<^verbatim>\<open>data\<close> (the counters) and \<^verbatim>\<open>radius\<close>.
\<close>

record sdm =
  sdm_p :: int
  sdm_n :: int
  sdm_keys :: "int list list"
  sdm_data :: "int list list"
  sdm_radius :: int

text \<open>
  \<^verbatim>\<open>SDM.enter\<close>. The inner loop \<^verbatim>\<open>for j in range(len(data_vector))\<close> updates
  \<^verbatim>\<open>self.data[i][j]\<close> in place; an index outside the matrix raises \<^verbatim>\<open>IndexError\<close>.
\<close>

fun enter_row :: "nat list \<Rightarrow> nat \<Rightarrow> int list \<Rightarrow> int list list \<Rightarrow> error + int list list" where
  "enter_row [] i data_vector data = Inr data"
| "enter_row (j # js) i data_vector data =
     (if i < length data \<and> j < length (data ! i) then
        (if data_vector ! j = 1
         then enter_row js i data_vector (data[i := (data ! i)[j := data ! i ! j + 1]])
         else enter_row js i data_vector (data[i := (data ! i)[j := data ! i ! j - 1]]))
      else Inl IndexError)"

fun enter_loop :: "nat list \<Rightarrow> sdm \<Rightarrow> int list \<Rightarrow> int list \<Rightarrow> error + sdm" where
  "enter_loop [] s key_vector data_vector = Inr s"
| "enter_loop (i # is) s key_vector data_vector =
     (let hdist = hamming_distance (sdm_keys s ! i) key_vector in
      if hdist \<le> sdm_radius s then
        (case enter_row [0..<length data_vector] i data_vector (sdm_data s) of
           Inl e \<Rightarrow> Inl e
         | Inr data \<Rightarrow> enter_loop is (s\<lparr>sdm_data := data\<rparr>) key_vector data_vector)
      else enter_loop is s key_vector data_vector)"

definition enter :: "sdm \<Rightarrow> int list \<Rightarrow> int list \<Rightarrow> error + sdm" where
  "enter s key_vector data_vector =
     enter_loop [0..<length (sdm_keys s)] s key_vector data_vector"

text \<open>
  \<^verbatim>\<open>SDM.lookup\<close>. \<^verbatim>\<open>retrieved_data\<close> has the length of the key vector, so only
  the read of \<^verbatim>\<open>self.data[i][j]\<close> can raise.
\<close>

fun lookup_row :: "nat list \<Rightarrow> nat \<Rightarrow> int list list \<Rightarrow> int list \<Rightarrow> error + int list" where
  "lookup_row [] i data retrieved_data = Inr retrieved_data"
| "lookup_row (j # js) i data retrieved_data =
     (if i < length data \<and> j < length (data ! i) then
        lookup_row js i data (retrieved_data[j := retrieved_data ! j + data ! i ! j])
      else Inl IndexError)"

fun lookup_loop :: "nat list \<Rightarrow> sdm \<Rightarrow> int list \<Rightarrow> int list \<Rightarrow> error + int list" where
  "lookup_loop [] s key_vector retrieved_data = Inr retrieved_data"
| "lookup_loop (i # is) s key_vector retrieved_data =
     (let hdist = hamming_distance (sdm_keys s ! i) key_vector in
      if hdist \<le> sdm_radius s then
        (case lookup_row [0..<length key_vector] i (sdm_data s) retrieved_data of
           Inl e \<Rightarrow> Inl e
         | Inr retrieved \<Rightarrow> lookup_loop is s key_vector retrieved)
      else lookup_loop is s key_vector retrieved_data)"

definition lookup :: "sdm \<Rightarrow> int list \<Rightarrow> error + int list" where
  "lookup s key_vector =
     (case lookup_loop [0..<length (sdm_keys s)] s key_vector (replicate (length key_vector) 0) of
        Inl e \<Rightarrow> Inl e
      | Inr retrieved_data \<Rightarrow> Inr (map (\<lambda>x. if x > 0 then 1 else 0) retrieved_data))"

text \<open>
  The words of the specification: the addresses within the radius of a key, the sum of
  their counters at one position, and the pattern a write adds to a row.
\<close>

definition in_radius :: "sdm \<Rightarrow> int list \<Rightarrow> nat \<Rightarrow> bool" where
  "in_radius s key_vector i \<longleftrightarrow> hamming_distance (sdm_keys s ! i) key_vector \<le> sdm_radius s"

definition accumulator :: "sdm \<Rightarrow> int list \<Rightarrow> nat \<Rightarrow> int" where
  "accumulator s key_vector j =
     sum_list (map (\<lambda>i. sdm_data s ! i ! j)
       (filter (in_radius s key_vector) [0..<length (sdm_keys s)]))"

definition vote_row :: "int list \<Rightarrow> int list \<Rightarrow> int list" where
  "vote_row data_vector row =
     map (\<lambda>j. if j < length data_vector
              then (if data_vector ! j = 1 then row ! j + 1 else row ! j - 1)
              else row ! j) [0..<length row]"

text \<open>
  A memory as the constructor leaves it and \<^verbatim>\<open>enter\<close> keeps it: one row of counters
  per address, every row of the vector length.
\<close>

definition well_formed :: "sdm \<Rightarrow> nat \<Rightarrow> bool" where
  "well_formed s n \<longleftrightarrow>
     length (sdm_data s) = length (sdm_keys s) \<and>
     list_all (\<lambda>key. length key = n) (sdm_keys s) \<and>
     list_all (\<lambda>row. length row = n) (sdm_data s)"

section \<open>Constructing a memory\<close>

subsection \<open>The product \<^verbatim>\<open>0.451 * n\<close>\<close>

text \<open>
  A Python float is a binary64 number; its exact value is kept as a rational. The literal
  \<^verbatim>\<open>0.451\<close> is the double \<^verbatim>\<open>0x1.cdd2f1a9fbe77p-2\<close>, that is 8124493727776375 / 2^54.
  Rounding to the nearest double, ties to even, keeps 53 significant bits of an integer
  mantissa; the exponent range of binary64 is not reached by the magnitudes below except
  where \<^verbatim>\<open>OverflowError\<close> is returned.
\<close>

definition round_to_53_bits :: "nat \<Rightarrow> nat" where
  "round_to_53_bits m =
     (let len = floorlog 2 m in
      if len \<le> 53 then m
      else
        let shift = len - 53; q = m div 2 ^ shift; r = m mod 2 ^ shift; half = 2 ^ (shift - 1)
        in (if half < r \<or> (r = half \<and> odd q) then q + 1 else q) * 2 ^ shift)"

definition float_0451_mantissa :: nat where
  "float_0451_mantissa = 8124493727776375"

text \<open>
  \<^verbatim>\<open>0.451 * n\<close> for an \<^verbatim>\<open>int\<close> \<open>n\<close>: the integer is converted to a double (rounded,
  or \<^verbatim>\<open>OverflowError\<close> from 2^1024 on), then the product is rounded.
\<close>

definition py_float_mul_0451 :: "int \<Rightarrow> error + rat" where
  "py_float_mul_0451 n =
     (let m = round_to_53_bits (nat \<bar>n\<bar>) in
      if 2 ^ 1024 \<le> m then Inl OverflowError
      else Inr (of_int (sgn n) * of_nat (round_to_53_bits (float_0451_mantissa * m)) / 2 ^ 54))"

text \<open>\<^verbatim>\<open>int(x)\<close> of a float cuts the fraction off, towards zero.\<close>

definition py_int_of_float :: "rat \<Rightarrow> int" where
  "py_int_of_float x = (if 0 \<le> x then \<lfloor>x\<rfloor> else \<lceil>x\<rceil>)"

text \<open>
  The radius as each constructor stores it: \<^verbatim>\<open>int(0.451 * n)\<close> in
  \<^verbatim>\<open>compression_test.py\<close>, the float \<^verbatim>\<open>0.451 * n\<close> itself in \<^verbatim>\<open>sdmTest.py\<close> and in
  \<^verbatim>\<open>sparse_malicious_memory.py\<close>.
\<close>

definition compression_test_radius :: "int \<Rightarrow> error + int" where
  "compression_test_radius n =
     (case py_float_mul_0451 n of Inl e \<Rightarrow> Inl e | Inr x \<Rightarrow> Inr (py_int_of_float x))"

definition sdmTest_radius :: "int \<Rightarrow> error + rat" where
  "sdmTest_radius n = py_float_mul_0451 n"

definition sparse_malicious_memory_radius :: "int \<Rightarrow> error + rat" where
  "sparse_malicious_memory_radius n = py_float_mul_0451 n"

subsection \<open>Random vectors\<close>

text \<open>
  The module \<^verbatim>\<open>random\<close> is a library: \<^verbatim>\<open>random.seed\<close> is a function \<open>seed_rng\<close>
  from the seed to a generator state, \<^verbatim>\<open>random.randint(0, 1)\<close> a function \<open>randint01\<close>
  from a state to a bit and the next state. Both constructors of vectors start with
  \<^verbatim>\<open>random.seed(seed)\<close>, so the state they find does not matter.
\<close>

fun draw_vector :: "('g \<Rightarrow> int \<times> 'g) \<Rightarrow> nat \<Rightarrow> 'g \<Rightarrow> int list \<times> 'g" where
  "draw_vector randint01 0 g = ([], g)"
| "draw_vector randint01 (Suc k) g =
     (case randint01 g of (b, g') \<Rightarrow>
        case draw_vector randint01 k g' of (bs, g'') \<Rightarrow> (b # bs, g''))"

fun draw_vectors :: "('g \<Rightarrow> int \<times> 'g) \<Rightarrow> nat \<Rightarrow> nat \<Rightarrow> 'g \<Rightarrow> int list list \<times> 'g" where
  "draw_vectors randint01 0 n g = ([], g)"
| "draw_vectors randint01 (Suc k) n g =
     (case draw_vector randint01 n g of (v, g') \<Rightarrow>
        case draw_vectors randint01 k n g' of (vs, g'') \<Rightarrow> (v # vs, g''))"

definition default_seed :: int where
  "default_seed = 42"

definition generate_key_vectors ::
    "(int \<Rightarrow> 'g) \<Rightarrow> ('g \<Rightarrow> int \<times> 'g) \<Rightarrow> int \<Rightarrow> int \<Rightarrow> int \<Rightarrow> int list list" where
  "generate_key_vectors seed_rng randint01 num_keys n seed =
     fst (draw_vectors randint01 (nat num_keys) (nat n) (seed_rng seed))"

text \<open>\<^verbatim>\<open>SDM.__init__\<close> of \<^verbatim>\<open>compression_test.py\<close>.\<close>

definition SDM_init ::
    "(int \<Rightarrow> 'g) \<Rightarrow> ('g \<Rightarrow> int \<times> 'g) \<Rightarrow> int \<Rightarrow> int \<Rightarrow> int \<Rightarrow> error + sdm" where
  "SDM_init seed_rng randint01 p n seed =
     (let keys = fst (draw_vectors randint01 (nat p) (nat n) (seed_rng seed));
          data = replicate (nat p) (replicate (nat n) 0)
      in case compression_test_radius n of
           Inl e \<Rightarrow> Inl e
         | Inr radius \<Rightarrow>
             Inr \<lparr>sdm_p = p, sdm_n = n, sdm_keys = keys, sdm_data = data, sdm_radius = radius\<rparr>)"

section \<open>The memory of sdmTest.py\<close>

text \<open>
  \<^verbatim>\<open>hamming_distance\<close> of \<^verbatim>\<open>sdmTest.py\<close> (and of \<^verbatim>\<open>sparse_malicious_memory.py\<close>)
  runs over the indices of its first argument and reads both vectors there.
\<close>

fun hamming_loop :: "nat list \<Rightarrow> int list \<Rightarrow> int list \<Rightarrow> int \<Rightarrow> error + int" where
  "hamming_loop [] vector1 vector2 distance = Inr distance"
| "hamming_loop (i # is) vector1 vector2 distance =
     (if i < length vector1 \<and> i < length vector2 then
        (if vector1 ! i \<noteq> vector2 ! i then hamming_loop is vector1 vector2 (distance + 1)
         else hamming_loop is vector1 vector2 distance)
      else Inl IndexError)"

definition hamming_distance_indexed :: "int list \<Rightarrow> int list \<Rightarrow> error + int" where
  "hamming_distance_indexed vector1 vector2 = hamming_loop [0..<length vector1] vector1 vector2 0"

text \<open>
  \<^verbatim>\<open>enter\<close> and \<^verbatim>\<open>lookup\<close> of \<^verbatim>\<open>sparse_malicious_memory.py\<close> fill a short address
  vector with zeros up to the length of the address before they measure the distance;
  \<^verbatim>\<open>[0] * k\<close> is empty for a negative \<open>k\<close>.
\<close>

definition padded_addressVector :: "int list \<Rightarrow> int list \<Rightarrow> int list" where
  "padded_addressVector address addressVector =
     addressVector @ replicate (length address - length addressVector) 0"

text \<open>
  The fields of the \<^verbatim>\<open>SDM\<close> object of \<^verbatim>\<open>sdmTest.py\<close>. The counters are numpy
  floats that only ever hold whole numbers (zeros, plus and minus one per write), kept
  here as integers; the radius is a float.
\<close>

record sdm_test =
  st_p :: int
  st_n :: int
  st_addresses :: "int list list"
  st_data :: "int list list"
  st_radius :: rat

text \<open>
  \<^verbatim>\<open>SDM.lookup\<close> of \<^verbatim>\<open>sdmTest.py\<close>: the iterations run over \<^verbatim>\<open>range(self.p)\<close> and
  \<^verbatim>\<open>range(self.n)\<close>, the inner statement is the one of \<open>lookup_row\<close>, and the last loop
  sets a bit to 1 where the sum is \<^verbatim>\<open>>= 0\<close>.
\<close>

fun sdmTest_lookup_loop :: "nat list \<Rightarrow> sdm_test \<Rightarrow> int list \<Rightarrow> int list \<Rightarrow> error + int list" where
  "sdmTest_lookup_loop [] s addressVector retrieved_data = Inr retrieved_data"
| "sdmTest_lookup_loop (i # is) s addressVector retrieved_data =
     (if i < length (st_addresses s) then
        (case hamming_distance_indexed (st_addresses s ! i) addressVector of
           Inl e \<Rightarrow> Inl e
         | Inr hdist \<Rightarrow>
             if of_int hdist \<le> st_radius s then
               (case lookup_row [0..<nat (st_n s)] i (st_data s) retrieved_data of
                  Inl e \<Rightarrow> Inl e
                | Inr retrieved \<Rightarrow> sdmTest_lookup_loop is s addressVector retrieved)
             else sdmTest_lookup_loop is s addressVector retrieved_data)
      else Inl IndexError)"

definition sdmTest_lookup :: "sdm_test \<Rightarrow> int list \<Rightarrow> error + int list" where
  "sdmTest_lookup s addressVector =
     (case sdmTest_lookup_loop [0..<nat (st_p s)] s addressVector (replicate (nat (st_n s)) 0) of
        Inl e \<Rightarrow> Inl e
      | Inr retrieved_data \<Rightarrow> Inr (map (\<lambda>x. if x \<ge> 0 then 1 else 0) retrieved_data))"

text \<open>The addresses within the radius of a key and the sum of their counters, for this memory.\<close>

definition st_in_radius :: "sdm_test \<Rightarrow> int list \<Rightarrow> nat \<Rightarrow> bool" where
  "st_in_radius s addressVector i \<longleftrightarrow>
     (case hamming_distance_indexed (st_addresses s ! i) addressVector of
        Inl e \<Rightarrow> False
      | Inr hdist \<Rightarrow> of_int hdist \<le> st_radius s)"

definition st_accumulator :: "sdm_test \<Rightarrow> int list \<Rightarrow> nat \<Rightarrow> int" where
  "st_accumulator s addressVector j =
     sum_list (map (\<lambda>i. st_data s ! i ! j)
       (filter (st_in_radius s addressVector) [0..<nat (st_p s)]))"

definition st_well_formed :: "sdm_test \<Rightarrow> bool" where
  "st_well_formed s \<longleftrightarrow>
     0 \<le> st_p s \<and> 0 \<le> st_n s \<and>
     length (st_addresses s) = nat (st_p s) \<and>
     length (st_data s) = nat (st_p s) \<and>
     list_all (\<lambda>address. length address = nat (st_n s)) (st_addresses s) \<and>
     list_all (\<lambda>row. length row = nat (st_n s)) (st_data s)"

section \<open>Chunking a payload\<close>

text \<open>
  Python's slices: an index below zero counts from the end, and every index is cut to
  the bounds of the list. \<^verbatim>\<open>range(k)\<close> is empty for \<open>k \<le> 0\<close>.
\<close>

definition py_clamp :: "int \<Rightarrow> int \<Rightarrow> nat" where
  "py_clamp len i = nat (if i < 0 then max 0 (len + i) else min i len)"

definition py_slice :: "'a list \<Rightarrow> int \<Rightarrow> int \<Rightarrow> 'a list" where
  "py_slice xs i j =
     (let len = int (length xs); a = py_clamp len i; b = py_clamp len j
      in take (b - a) (drop a xs))"

definition py_slice_from :: "'a list \<Rightarrow> int \<Rightarrow> 'a list" where
  "py_slice_from xs i = drop (py_clamp (int (length xs)) i) xs"

definition py_slice_to :: "'a list \<Rightarrow> int \<Rightarrow> 'a list" where
  "py_slice_to xs j = take (py_clamp (int (length xs)) j) xs"

definition py_range :: "int \<Rightarrow> int list" where
  "py_range k = map int [0..<nat k]"

text \<open>
  \<^verbatim>\<open>chunk_binary_data\<close>. \<^verbatim>\<open>//\<close> and \<^verbatim>\<open>%\<close> round towards minus infinity, as
  \<open>div\<close> and \<open>mod\<close> on \<open>int\<close> do, and raise for a zero divisor.
\<close>

definition chunk_binary_data :: "int list \<Rightarrow> int \<Rightarrow> error + int list list" where
  "chunk_binary_data binary_data chunk_size =
     (if chunk_size = 0 then Inl ZeroDivisionError
      else
        let chunks = map (\<lambda>i. py_slice binary_data (i * chunk_size) ((i + 1) * chunk_size))
                       (py_range (int (length binary_data) div chunk_size));
            remainder = int (length binary_data) mod chunk_size
        in if remainder > 0
           then Inr (chunks @ [py_slice_from binary_data (- remainder) @
                                replicate (nat (chunk_size - remainder)) 0])
           else Inr chunks)"

text \<open>
  The loader's \<^verbatim>\<open>reconstruct_file\<close> joins the chunks it has read with \<^verbatim>\<open>extend\<close> and
  cuts the result with \<^verbatim>\<open>binary_data[:original_length]\<close>.
\<close>

definition join_chunks :: "int list list \<Rightarrow> int \<Rightarrow> int list" where
  "join_chunks chunks original_length = py_slice_to (concat chunks) original_length"

section \<open>Properties of the run-length coding\<close>

lemma spec_expand_simps [simp]:
  "spec_expand [] = []"
  "spec_expand [c] = []"
  "spec_expand (c # v # rest) = replicate (nat c) v @ spec_expand rest"
  by (simp_all add: spec_expand_def)

lemma value_elements_simps [simp]:
  "value_elements [] = []"
  "value_elements [c] = []"
  "value_elements (c # v # rest) = v # value_elements rest"
  by (simp_all add: value_elements_def)

lemma count_elements_simps [simp]:
  "count_elements [] = []"
  "count_elements [c] = []"
  "count_elements (c # v # rest) = c # count_elements rest"
  by (simp_all add: count_elements_def)

lemma spec_expand_append:
  "even (length xs) \<Longrightarrow> spec_expand (xs @ ys) = spec_expand xs @ spec_expand ys"
  by (induction xs rule: spec_pairs.induct) simp_all

lemma value_elements_append:
  "even (length xs) \<Longrightarrow> value_elements (xs @ ys) = value_elements xs @ value_elements ys"
  by (induction xs rule: spec_pairs.induct) simp_all

lemma count_elements_append:
  "even (length xs) \<Longrightarrow> count_elements (xs @ ys) = count_elements xs @ count_elements ys"
  by (induction xs rule: spec_pairs.induct) simp_all

lemma rld_loop_ok:
  "even (length encoded) \<Longrightarrow> set (value_elements encoded) \<subseteq> {0, 1} \<Longrightarrow>
   rld_loop encoded decoded = Inr (decoded @ spec_expand encoded)"
  by (induction encoded decoded rule: rld_loop.induct) auto

lemma rld_loop_bad:
  "even (length encoded) \<Longrightarrow> \<not> set (value_elements encoded) \<subseteq> {0, 1} \<Longrightarrow>
   \<exists>v. v \<in> set (value_elements encoded) \<and> v \<notin> {0, 1} \<and>
       rld_loop encoded decoded = Inl (ValueError (InvalidValue v))"
  by (induction encoded decoded rule: rld_loop.induct) auto

lemma even_length_rle_loop:
  "even (length encoded) \<Longrightarrow> even (length (rle_loop bits cur count encoded))"
  by (induction bits cur count encoded rule: rle_loop.induct) simp_all

lemma spec_expand_rle_loop:
  "even (length encoded) \<Longrightarrow> 0 \<le> count \<Longrightarrow>
   spec_expand (rle_loop bits cur count encoded) =
     spec_expand encoded @ replicate (nat count) cur @ bits"
proof (induction bits cur count encoded rule: rle_loop.induct)
  case (1 cur count encoded)
  then show ?case by (simp add: spec_expand_append)
next
  case (2 val rest cur count encoded)
  have suc: "nat (count + 1) = Suc (nat count)"
    using "2.prems" by simp
  show ?case
    using 2 by (simp add: spec_expand_append suc replicate_append_same)
qed

lemma value_elements_rle_loop:
  "even (length encoded) \<Longrightarrow>
   set (value_elements (rle_loop bits cur count encoded)) \<subseteq>
     set (value_elements encoded) \<union> {cur} \<union> set bits"
proof (induction bits cur count encoded rule: rle_loop.induct)
  case (1 cur count encoded)
  then show ?case by (simp add: value_elements_append)
next
  case (2 val rest cur count encoded)
  then show ?case by (auto simp: value_elements_append split: if_splits)
qed

lemma count_elements_rle_loop:
  "even (length encoded) \<Longrightarrow> 1 \<le> count \<Longrightarrow> count \<le> 255 \<Longrightarrow>
   \<forall>c \<in> set (count_elements encoded). 1 \<le> c \<and> c \<le> 255 \<Longrightarrow>
   \<forall>c \<in> set (count_elements (rle_loop bits cur count encoded)). 1 \<le> c \<and> c \<le> 255"
proof (induction bits cur count encoded rule: rle_loop.induct)
  case (1 cur count encoded)
  then show ?case by (simp add: count_elements_append)
next
  case (2 val rest cur count encoded)
  have ext: "\<forall>c \<in> set (count_elements (encoded @ [count, cur])). 1 \<le> c \<and> c \<le> 255"
    using "2.prems" by (simp add: count_elements_append)
  have len: "even (length (encoded @ [count, cur]))"
    using "2.prems" by simp
  show ?case
  proof (cases "val = cur")
    case True
    show ?thesis
    proof (cases "count < 255")
      case True
      with \<open>val = cur\<close> "2.IH"(1) "2.prems" show ?thesis by simp
    next
      case False
      with \<open>val = cur\<close> "2.IH"(2) [OF _ _ len _ _ ext] show ?thesis by simp
    qed
  next
    case False
    with "2.IH"(3) [OF _ len _ _ ext] show ?thesis by simp
  qed
qed

text \<open>A run that fits the current count is absorbed into it.\<close>

lemma rle_loop_replicate:
  "count + int k \<le> 255 \<Longrightarrow>
   rle_loop (replicate k v @ rest) v count encoded = rle_loop rest v (count + int k) encoded"
proof (induction k arbitrary: count)
  case 0
  then show ?case by simp
next
  case (Suc k)
  then show ?case by (simp add: add.assoc)
qed

lemma rle_run_300:
  "run_length_encode_packed (replicate 300 v) = [255, v, 45, v]"
proof -
  have split: "replicate 300 v = v # (replicate 254 v @ (v # (replicate 44 v @ [])))"
    by (simp add: replicate_add [symmetric] flip: replicate_Suc)
  have "run_length_encode_packed (replicate 300 v) =
          rle_loop (replicate 254 v @ (v # (replicate 44 v @ []))) v 1 []"
    by (simp only: split run_length_encode_packed_def list.case)
  also have "\<dots> = rle_loop (v # (replicate 44 v @ [])) v (1 + int 254) []"
    by (rule rle_loop_replicate) simp
  also have "\<dots> = rle_loop (replicate 44 v @ []) v 1 [255, v]"
    by simp
  also have "\<dots> = rle_loop [] v (1 + int 44) [255, v]"
    by (rule rle_loop_replicate) simp
  also have "\<dots> = [255, v, 45, v]"
    by simp
  finally show ?thesis .
qed

lemma rle_decode_encode:
  assumes "set x \<subseteq> {0, 1}"
  shows "run_length_decode_packed (run_length_encode_packed x) = Inr x"
proof (cases x)
  case Nil
  then show ?thesis
    by (simp add: run_length_encode_packed_def run_length_decode_packed_def)
next
  case (Cons b rest)
  let ?e = "rle_loop rest b 1 []"
  have ev: "even (length ?e)"
    by (rule even_length_rle_loop) simp
  have "set (value_elements ?e) \<subseteq> set (value_elements []) \<union> {b} \<union> set rest"
    by (rule value_elements_rle_loop) simp
  with assms Cons have vals: "set (value_elements ?e) \<subseteq> {0, 1}"
    by auto
  have "spec_expand ?e = spec_expand [] @ replicate (nat 1) b @ rest"
    by (rule spec_expand_rle_loop) simp_all
  then have ex: "spec_expand ?e = x"
    using Cons by simp
  have "rld_loop ?e [] = Inr ([] @ spec_expand ?e)"
    using ev vals by (rule rld_loop_ok)
  with ev ex Cons show ?thesis
    by (simp add: run_length_encode_packed_def run_length_decode_packed_def)
qed

text \<open>
  C1. Decoding the run-length encoding of a binary sequence gives the sequence back;
  \<^verbatim>\<open>[0,0,0,1,1]\<close> encodes to \<^verbatim>\<open>[3,0,2,1]\<close>, which decodes to \<^verbatim>\<open>[0,0,0,1,1]\<close>; and
  a run of 300 equal values \<open>v\<close> encodes to the two pairs \<^verbatim>\<open>[255, v]\<close>, \<^verbatim>\<open>[45, v]\<close>.
\<close>

theorem rle_round_trip:
  "(set x \<subseteq> {0, 1} \<longrightarrow> run_length_decode_packed (run_length_encode_packed x) = Inr x) \<and>
   run_length_encode_packed [0, 0, 0, 1, 1] = [3, 0, 2, 1] \<and>
   run_length_decode_packed [3, 0, 2, 1] = Inr [0, 0, 0, 1, 1] \<and>
   run_length_encode_packed (replicate 300 v) = [255, v, 45, v]"
proof -
  have a: "run_length_encode_packed [0, 0, 0, 1, 1] = [3, 0, 2, 1]"
    by (simp add: run_length_encode_packed_def)
  have "rld_loop [3, 0, 2, 1] [] = Inr [0, 0, 0, 1, 1]"
    by (simp add: numeral_eq_Suc)
  then have b: "run_length_decode_packed [3, 0, 2, 1] = Inr [0, 0, 0, 1, 1]"
    by (simp add: run_length_decode_packed_def)
  show ?thesis
    using a b rle_run_300 [of v] rle_decode_encode [of x] by blast
qed

theorem rle_round_trip_witness:
  "set [1, 1, 0, 1] \<subseteq> {0, 1 :: int} \<and>
   run_length_decode_packed (run_length_encode_packed [1, 1, 0, 1]) = Inr [1, 1, 0, 1] \<and>
   run_length_encode_packed (replicate 300 7) = [255, 7, 45, 7]"
  using rle_round_trip [of "[1, 1, 0, 1]" 7] by simp

lemma set_value_elements:
  "set (value_elements xs) = {xs ! i | i. i < length xs \<and> odd i}"
proof (induction xs rule: spec_pairs.induct)
  case (1 c v rest)
  have "{(c # v # rest) ! i | i. i < length (c # v # rest) \<and> odd i} =
        insert v {rest ! i | i. i < length rest \<and> odd i}" (is "?L = ?R")
  proof (rule set_eqI)
    fix x
    show "x \<in> ?L \<longleftrightarrow> x \<in> ?R"
    proof
      assume "x \<in> ?L"
      then obtain i where i: "x = (c # v # rest) ! i" "i < length (c # v # rest)" "odd i"
        by blast
      show "x \<in> ?R"
      proof (cases "i = 1")
        case True
        with i show ?thesis by simp
      next
        case False
        with i obtain j where j: "i = Suc (Suc j)"
          by (cases i; cases "i - 1") auto
        with i have "x = rest ! j" "j < length rest" "odd j"
          by simp_all
        then show ?thesis by blast
      qed
    next
      assume "x \<in> ?R"
      then consider "x = v" | j where "x = rest ! j" "j < length rest" "odd j"
        by blast
      then show "x \<in> ?L"
      proof cases
        case 1
        then have "x = (c # v # rest) ! 1 \<and> 1 < length (c # v # rest) \<and> odd (1::nat)"
          by simp
        then show ?thesis by blast
      next
        case 2
        then have "x = (c # v # rest) ! Suc (Suc j) \<and> Suc (Suc j) < length (c # v # rest)
                   \<and> odd (Suc (Suc j))"
          by simp
        then show ?thesis by blast
      qed
    qed
  qed
  with 1 show ?case by simp
qed (auto simp: less_Suc_eq)

lemma set_count_value_elements:
  "even (length xs) \<Longrightarrow> set xs = set (count_elements xs) \<union> set (value_elements xs)"
  by (induction xs rule: spec_pairs.induct) auto

text \<open>
  C7. Decoding fails exactly when the flat sequence has odd length or one of its value
  elements (the elements at odd positions) is not 0 or 1, and then with a
  \<^verbatim>\<open>ValueError\<close>; on an even-length sequence whose values are 0 or 1 it returns each
  value repeated count times, in order.
\<close>

theorem rle_decode_malformed:
  "((\<exists>e. run_length_decode_packed encoded = Inl e) \<longleftrightarrow>
      odd (length encoded) \<or> (\<exists>i. i < length encoded \<and> odd i \<and> encoded ! i \<notin> {0, 1})) \<and>
   (\<forall>e. run_length_decode_packed encoded = Inl e \<longrightarrow> (\<exists>m. e = ValueError m)) \<and>
   (even (length encoded) \<and> (\<forall>i. i < length encoded \<and> odd i \<longrightarrow> encoded ! i \<in> {0, 1}) \<longrightarrow>
      run_length_decode_packed encoded = Inr (spec_expand encoded))"
proof (cases "even (length encoded)")
  case False
  then show ?thesis
    by (simp add: run_length_decode_packed_def odd_iff_mod_2_eq_one)
next
  case ev: True
  then have dec: "run_length_decode_packed encoded = rld_loop encoded []"
    by (simp add: run_length_decode_packed_def)
  have vals: "set (value_elements encoded) \<subseteq> {0, 1} \<longleftrightarrow>
              (\<forall>i. i < length encoded \<and> odd i \<longrightarrow> encoded ! i \<in> {0, 1})"
    unfolding set_value_elements by blast
  show ?thesis
  proof (cases "set (value_elements encoded) \<subseteq> {0, 1}")
    case True
    with ev have "rld_loop encoded [] = Inr ([] @ spec_expand encoded)"
      by (intro rld_loop_ok)
    with dec have r: "run_length_decode_packed encoded = Inr (spec_expand encoded)"
      by simp
    then have no_err: "\<not> (\<exists>e. run_length_decode_packed encoded = Inl e)"
      by simp
    have no_bad: "\<not> (\<exists>i. i < length encoded \<and> odd i \<and> encoded ! i \<notin> {0, 1})"
      using True vals by blast
    show ?thesis
      using ev r no_err no_bad by blast
  next
    case False
    with ev obtain v where "rld_loop encoded [] = Inl (ValueError (InvalidValue v))"
      using rld_loop_bad [of encoded "[]"] by blast
    with dec have r: "run_length_decode_packed encoded = Inl (ValueError (InvalidValue v))"
      by simp
    then have only: "\<forall>e. run_length_decode_packed encoded = Inl e \<longrightarrow> (\<exists>m. e = ValueError m)"
      by simp
    have bad: "\<exists>i. i < length encoded \<and> odd i \<and> encoded ! i \<notin> {0, 1}"
      using False vals by blast
    show ?thesis
      using r only bad by blast
  qed
qed

theorem rle_decode_malformed_witness:
  "run_length_decode_packed [2, 1, 3] = Inl (ValueError OddLength) \<and>
   run_length_decode_packed [2, 1, 3, 2] = Inl (ValueError (InvalidValue 2)) \<and>
   run_length_decode_packed [2, 1, 3, 0] = Inr [1, 1, 0, 0, 0] \<and>
   spec_expand [2, 1, 3, 0] = [1, 1, 0, 0, 0] \<and>
   (\<exists>i. i < length [2, 1, 3, 2 :: int] \<and> odd i \<and> [2, 1, 3, 2 :: int] ! i \<notin> {0, 1})"
proof -
  have ev: "even (length [2, 1, 3, 0 :: int])"
    by simp
  have vals: "\<forall>i. i < length [2, 1, 3, 0 :: int] \<and> odd i \<longrightarrow> [2, 1, 3, 0 :: int] ! i \<in> {0, 1}"
    by (auto simp: less_Suc_eq numeral_eq_Suc)
  have ex: "spec_expand [2, 1, 3, 0] = [1, 1, 0, 0, 0]"
    by (simp add: numeral_eq_Suc)
  have good: "run_length_decode_packed [2, 1, 3, 0] = Inr [1, 1, 0, 0, 0]"
    using rle_decode_malformed [of "[2, 1, 3, 0]"] ev vals ex by simp
  have odd: "run_length_decode_packed [2, 1, 3] = Inl (ValueError OddLength)"
    by (simp add: run_length_decode_packed_def)
  have bad: "run_length_decode_packed [2, 1, 3, 2] = Inl (ValueError (InvalidValue 2))"
    by (simp add: run_length_decode_packed_def)
  have "\<exists>e. run_length_decode_packed [2, 1, 3, 2] = Inl e"
    using bad by simp
  then have "\<exists>i. i < length [2, 1, 3, 2 :: int] \<and> odd i \<and> [2, 1, 3, 2 :: int] ! i \<notin> {0, 1}"
    using rle_decode_malformed [of "[2, 1, 3, 2]"] by simp
  with good odd bad ex show ?thesis by blast
qed

section \<open>Properties of the byte packing\<close>

lemma check_byte_range_ok:
  "\<forall>b \<in> set xs. 0 \<le> b \<and> b \<le> 255 \<Longrightarrow> check_byte_range xs = Inr ()"
  by (induction xs) simp_all

lemma rle_encode_counts:
  "\<forall>c \<in> set (count_elements (run_length_encode_packed bits)). 1 \<le> c \<and> c \<le> 255"
proof (cases bits)
  case Nil
  then show ?thesis by (simp add: run_length_encode_packed_def)
next
  case (Cons b rest)
  have "\<forall>c \<in> set (count_elements (rle_loop rest b 1 [])). 1 \<le> c \<and> c \<le> 255"
    by (rule count_elements_rle_loop) simp_all
  with Cons show ?thesis by (simp add: run_length_encode_packed_def)
qed

lemma rle_encode_values:
  "set (value_elements (run_length_encode_packed bits)) \<subseteq> set bits"
proof (cases bits)
  case Nil
  then show ?thesis by (simp add: run_length_encode_packed_def)
next
  case (Cons b rest)
  have "set (value_elements (rle_loop rest b 1 [])) \<subseteq> set (value_elements []) \<union> {b} \<union> set rest"
    by (rule value_elements_rle_loop) simp
  with Cons show ?thesis by (simp add: run_length_encode_packed_def)
qed

lemma rle_encode_even: "even (length (run_length_encode_packed bits))"
proof (cases bits)
  case Nil
  then show ?thesis by (simp add: run_length_encode_packed_def)
next
  case (Cons b rest)
  have "even (length (rle_loop rest b 1 []))"
    by (rule even_length_rle_loop) simp
  with Cons show ?thesis by (simp add: run_length_encode_packed_def)
qed

lemma rle_encode_bytes:
  assumes "set bits \<subseteq> {0, 1}"
  shows "\<forall>b \<in> set (run_length_encode_packed bits). 0 \<le> b \<and> b \<le> 255"
proof
  fix b
  assume "b \<in> set (run_length_encode_packed bits)"
  then consider "b \<in> set (count_elements (run_length_encode_packed bits))"
    | "b \<in> set (value_elements (run_length_encode_packed bits))"
    using set_count_value_elements [OF rle_encode_even, of bits] by blast
  then show "0 \<le> b \<and> b \<le> 255"
  proof cases
    case 1
    with rle_encode_counts [of bits] show ?thesis by auto
  next
    case 2
    with rle_encode_values [of bits] assms have "b \<in> {0, 1}" by blast
    then show ?thesis by auto
  qed
qed

lemma flat_data_loop_ok:
  "\<forall>v \<in> set vals. - 128 \<le> v \<and> v \<le> 127 \<Longrightarrow>
   flat_data_loop vals flat_data =
     Inr (flat_data @ map (\<lambda>v. if v < 0 then v + 256 else v) vals)"
  by (induction vals flat_data rule: flat_data_loop.induct) auto

lemma flat_data_loop_bad:
  "\<exists>v \<in> set vals. v < - 128 \<or> 127 < v \<Longrightarrow>
   \<exists>v \<in> set vals. (v < - 128 \<or> 127 < v) \<and>
     flat_data_loop vals flat_data = Inl (ValueError (VoteOutOfRange v))"
  by (induction vals flat_data rule: flat_data_loop.induct) auto

lemma py_bytes_ok:
  "\<forall>b \<in> set xs. 0 \<le> b \<and> b \<le> 255 \<Longrightarrow> py_bytes xs = Inr xs"
  by (simp add: py_bytes_def)

text \<open>
  C10. For a binary input every element of the run-length encoding is in 0..255: the
  counts are in 1..255 and the values are 0 or 1. So packing a chunk key into bytes
  succeeds, and for binary key vectors the bundle writer's packing of the keys succeeds
  too: neither its own range check nor \<^verbatim>\<open>bytes\<close> raises.
\<close>

theorem rle_encode_byte_range:
  "(set bits \<subseteq> {0, 1} \<longrightarrow>
      (\<forall>b \<in> set (run_length_encode_packed bits). 0 \<le> b \<and> b \<le> 255) \<and>
      (\<forall>c \<in> set (count_elements (run_length_encode_packed bits)). 1 \<le> c \<and> c \<le> 255) \<and>
      set (value_elements (run_length_encode_packed bits)) \<subseteq> {0, 1} \<and>
      chunk_key_bytes bits = Inr (run_length_encode_packed bits)) \<and>
   ((\<forall>key \<in> set keys. set key \<subseteq> {0, 1}) \<longrightarrow>
      keys_bytes keys = Inr (concat (map run_length_encode_packed keys)))"
proof (intro conjI impI)
  assume bin: "set bits \<subseteq> {0, 1}"
  then show rng: "\<forall>b \<in> set (run_length_encode_packed bits). 0 \<le> b \<and> b \<le> 255"
    by (rule rle_encode_bytes)
  show "\<forall>c \<in> set (count_elements (run_length_encode_packed bits)). 1 \<le> c \<and> c \<le> 255"
    by (rule rle_encode_counts)
  show "set (value_elements (run_length_encode_packed bits)) \<subseteq> {0, 1}"
    using rle_encode_values [of bits] bin by blast
  show "chunk_key_bytes bits = Inr (run_length_encode_packed bits)"
    unfolding chunk_key_bytes_def using rng by (rule py_bytes_ok)
next
  assume bin: "\<forall>key \<in> set keys. set key \<subseteq> {0, 1}"
  have rng: "\<forall>b \<in> set (concat (map run_length_encode_packed keys)). 0 \<le> b \<and> b \<le> 255"
  proof
    fix b
    assume "b \<in> set (concat (map run_length_encode_packed keys))"
    then obtain key where "key \<in> set keys" "b \<in> set (run_length_encode_packed key)"
      by auto
    with bin rle_encode_bytes [of key] show "0 \<le> b \<and> b \<le> 255"
      by blast
  qed
  show "keys_bytes keys = Inr (concat (map run_length_encode_packed keys))"
    by (simp add: keys_bytes_def check_byte_range_ok [OF rng] py_bytes_ok [OF rng])
qed

theorem rle_encode_byte_range_witness:
  "set [1, 1, 0] \<subseteq> {0, 1 :: int} \<and>
   set [0, 1, 0] \<subseteq> {0, 1 :: int} \<and>
   chunk_key_bytes [1, 1, 0] = Inr [2, 1, 1, 0] \<and>
   keys_bytes [[1, 1, 0], [0, 1, 0]] = Inr [2, 1, 1, 0, 1, 0, 1, 1, 1, 0]"
  using rle_encode_byte_range [of "[1, 1, 0]" "[[1, 1, 0], [0, 1, 0]]"]
  by (simp add: run_length_encode_packed_def)

text \<open>
  C3. Packing the counter matrix fails exactly when some counter is outside -128..127,
  with the \<^verbatim>\<open>ValueError\<close> that reports an out-of-range vote count; when every counter
  is in range the bytes are the counters in row order, a negative one plus 256 and the
  others unchanged. No out-of-range counter is clamped or wrapped.
\<close>

theorem data_bytes_overflow:
  "((\<exists>e. data_bytes data = Inl e) \<longleftrightarrow> (\<exists>v \<in> set (concat data). v < - 128 \<or> 127 < v)) \<and>
   (\<forall>e. data_bytes data = Inl e \<longrightarrow>
      (\<exists>v \<in> set (concat data). (v < - 128 \<or> 127 < v) \<and> e = ValueError (VoteOutOfRange v))) \<and>
   ((\<forall>v \<in> set (concat data). - 128 \<le> v \<and> v \<le> 127) \<longrightarrow>
      data_bytes data = Inr (map (\<lambda>v. if v < 0 then v + 256 else v) (concat data)))"
proof (cases "\<forall>v \<in> set (concat data). - 128 \<le> v \<and> v \<le> 127")
  case True
  let ?out = "map (\<lambda>v. if v < 0 then v + 256 else v) (concat data)"
  have loop: "flat_data_loop (concat data) [] = Inr ([] @ ?out)"
    using True by (rule flat_data_loop_ok)
  have "\<forall>b \<in> set ?out. 0 \<le> b \<and> b \<le> 255"
  proof
    fix b
    assume "b \<in> set ?out"
    then obtain v where "v \<in> set (concat data)" "b = (if v < 0 then v + 256 else v)"
      by (auto simp del: set_concat)
    with True have "- 128 \<le> v \<and> v \<le> 127" "b = (if v < 0 then v + 256 else v)"
      by blast+
    then show "0 \<le> b \<and> b \<le> 255"
      by (simp split: if_splits)
  qed
  then have "py_bytes ?out = Inr ?out"
    by (rule py_bytes_ok)
  with loop have r: "data_bytes data = Inr ?out"
    by (simp add: data_bytes_def)
  then have no_err: "\<not> (\<exists>e. data_bytes data = Inl e)"
    by simp
  have no_bad: "\<not> (\<exists>v \<in> set (concat data). v < - 128 \<or> 127 < v)"
    using True by (fastforce simp del: set_concat)
  show ?thesis
    using r no_err no_bad by blast
next
  case False
  then have bad: "\<exists>v \<in> set (concat data). v < - 128 \<or> 127 < v"
    by (fastforce simp del: set_concat)
  then obtain v where v: "v \<in> set (concat data)" "v < - 128 \<or> 127 < v"
    and loop: "flat_data_loop (concat data) [] = Inl (ValueError (VoteOutOfRange v))"
    using flat_data_loop_bad [of "concat data" "[]"] by blast
  from loop have r: "data_bytes data = Inl (ValueError (VoteOutOfRange v))"
    by (simp add: data_bytes_def)
  with v have only: "\<forall>e. data_bytes data = Inl e \<longrightarrow>
      (\<exists>v \<in> set (concat data). (v < - 128 \<or> 127 < v) \<and> e = ValueError (VoteOutOfRange v))"
    by auto
  show ?thesis
    using r only bad False by blast
qed

theorem data_bytes_overflow_witness:
  "data_bytes [[3, - 2], [- 128, 127]] = Inr [3, 254, 128, 127] \<and>
   data_bytes [[3, - 2], [128, - 129]] = Inl (ValueError (VoteOutOfRange 128)) \<and>
   (\<exists>v \<in> set (concat [[3, - 2], [128, - 129 :: int]]). v < - 128 \<or> 127 < v)"
proof -
  have "\<forall>v \<in> set (concat [[3, - 2], [- 128, 127 :: int]]). - 128 \<le> v \<and> v \<le> 127"
    by simp
  then have good: "data_bytes [[3, - 2], [- 128, 127]] = Inr [3, 254, 128, 127]"
    using data_bytes_overflow [of "[[3, - 2], [- 128, 127]]"] by simp
  have bad: "data_bytes [[3, - 2], [128, - 129]] = Inl (ValueError (VoteOutOfRange 128))"
    by (simp add: data_bytes_def)
  then have "\<exists>e. data_bytes [[3, - 2], [128, - 129]] = Inl e"
    by simp
  then have "\<exists>v \<in> set (concat [[3, - 2], [128, - 129 :: int]]). v < - 128 \<or> 127 < v"
    using data_bytes_overflow [of "[[3, - 2], [128, - 129]]"] by blast
  with good bad show ?thesis by blast
qed

section \<open>Properties of the memory\<close>

lemma hamming_distance_bounds:
  "0 \<le> hamming_distance a b \<and> hamming_distance a b \<le> int (min (length a) (length b))"
proof (induction a arbitrary: b)
  case Nil
  show ?case by (simp add: hamming_distance_def)
next
  case (Cons x a)
  show ?case
  proof (cases b)
    case Nil
    then show ?thesis by (simp add: hamming_distance_def)
  next
    case (Cons y b')
    with Cons.IH [of b'] show ?thesis
      by (simp add: hamming_distance_def)
  qed
qed

lemma map_update_step:
  fixes row :: "int list"
  assumes "j \<notin> S"
  shows "map (\<lambda>k. if k \<in> S then row[j := row ! j + g j] ! k + g k else row[j := row ! j + g j] ! k)
           [0..<length row] =
         map (\<lambda>k. if k \<in> insert j S then row ! k + g k else row ! k) [0..<length row]"
proof (rule map_cong [OF refl])
  fix k
  assume "k \<in> set [0..<length row]"
  then have k: "k < length row" by simp
  show "(if k \<in> S then row[j := row ! j + g j] ! k + g k else row[j := row ! j + g j] ! k) =
        (if k \<in> insert j S then row ! k + g k else row ! k)"
  proof (cases "k = j")
    case True
    with assms k show ?thesis by simp
  next
    case False
    then show ?thesis by simp
  qed
qed

lemma enter_row_result:
  "i < length data \<Longrightarrow> distinct js \<Longrightarrow> \<forall>j \<in> set js. j < length (data ! i) \<Longrightarrow>
   enter_row js i data_vector data =
     Inr (data[i := map (\<lambda>j. if j \<in> set js
                             then data ! i ! j + (if data_vector ! j = 1 then 1 else - 1)
                             else data ! i ! j) [0..<length (data ! i)]])"
proof (induction js arbitrary: data)
  case Nil
  then show ?case by (simp add: map_nth)
next
  case (Cons j js)
  define g where "g k = (if data_vector ! k = 1 then 1 else - 1 :: int)" for k
  define row where "row = data ! i"
  define data' where "data' = data[i := row[j := row ! j + g j]]"
  have row': "data' ! i = row[j := row ! j + g j]"
    using Cons.prems by (simp add: data'_def)
  have step: "enter_row (j # js) i data_vector data = enter_row js i data_vector data'"
    using Cons.prems by (simp add: data'_def row_def g_def)
  have "enter_row js i data_vector data' =
     Inr (data'[i := map (\<lambda>j. if j \<in> set js
                             then data' ! i ! j + (if data_vector ! j = 1 then 1 else - 1)
                             else data' ! i ! j) [0..<length (data' ! i)]])"
    using Cons.prems by (intro Cons.IH) (simp_all add: data'_def row_def)
  also have "\<dots> = Inr (data[i := map (\<lambda>k. if k \<in> set js
                             then row[j := row ! j + g j] ! k + g k
                             else row[j := row ! j + g j] ! k) [0..<length row]])"
    unfolding row' by (simp add: data'_def g_def cong: if_cong)
  also have "\<dots> = Inr (data[i := map (\<lambda>k. if k \<in> insert j (set js) then row ! k + g k else row ! k)
                             [0..<length row]])"
    using Cons.prems by (simp add: map_update_step)
  finally have "enter_row js i data_vector data' =
      Inr (data[i := map (\<lambda>k. if k \<in> insert j (set js) then row ! k + g k else row ! k)
                             [0..<length row]])" .
  with step show ?case
    by (simp only: row_def g_def list.set)
qed

lemma lookup_row_result:
  "i < length data \<Longrightarrow> distinct js \<Longrightarrow> \<forall>j \<in> set js. j < length (data ! i) \<Longrightarrow>
   lookup_row js i data retrieved =
     Inr (map (\<lambda>j. if j \<in> set js then retrieved ! j + data ! i ! j else retrieved ! j)
            [0..<length retrieved])"
proof (induction js arbitrary: retrieved)
  case Nil
  then show ?case by (simp add: map_nth)
next
  case (Cons j js)
  define g where "g k = data ! i ! k" for k
  define r where "r = retrieved[j := retrieved ! j + g j]"
  have "lookup_row (j # js) i data retrieved = lookup_row js i data r"
    using Cons.prems by (simp add: r_def g_def)
  also have "\<dots> = Inr (map (\<lambda>j. if j \<in> set js then r ! j + data ! i ! j else r ! j) [0..<length r])"
    using Cons.prems by (intro Cons.IH) simp_all
  also have "\<dots> = Inr (map (\<lambda>k. if k \<in> set js
                             then retrieved[j := retrieved ! j + g j] ! k + g k
                             else retrieved[j := retrieved ! j + g j] ! k) [0..<length retrieved])"
    by (simp add: r_def g_def)
  also have "\<dots> = Inr (map (\<lambda>k. if k \<in> insert j (set js) then retrieved ! k + g k else retrieved ! k)
                             [0..<length retrieved])"
    using Cons.prems by (simp add: map_update_step)
  finally show ?case
    by (simp add: g_def)
qed

lemma length_vote_row [simp]: "length (vote_row data_vector row) = length row"
  by (simp add: vote_row_def)

lemma enter_row_full:
  assumes "i < length data" "length data_vector \<le> length (data ! i)"
  shows "enter_row [0..<length data_vector] i data_vector data =
           Inr (data[i := vote_row data_vector (data ! i)])"
proof -
  have "enter_row [0..<length data_vector] i data_vector data =
     Inr (data[i := map (\<lambda>j. if j \<in> set [0..<length data_vector]
                             then data ! i ! j + (if data_vector ! j = 1 then 1 else - 1)
                             else data ! i ! j) [0..<length (data ! i)]])"
    using assms by (intro enter_row_result) simp_all
  also have "map (\<lambda>j. if j \<in> set [0..<length data_vector]
                             then data ! i ! j + (if data_vector ! j = 1 then 1 else - 1)
                             else data ! i ! j) [0..<length (data ! i)] =
             vote_row data_vector (data ! i)"
    unfolding vote_row_def by (rule map_cong [OF refl]) simp
  finally show ?thesis .
qed

lemma lookup_row_full:
  assumes "i < length data" "length retrieved \<le> length (data ! i)"
  shows "lookup_row [0..<length retrieved] i data retrieved =
           Inr (map (\<lambda>j. retrieved ! j + data ! i ! j) [0..<length retrieved])"
proof -
  have "lookup_row [0..<length retrieved] i data retrieved =
     Inr (map (\<lambda>j. if j \<in> set [0..<length retrieved] then retrieved ! j + data ! i ! j else retrieved ! j)
            [0..<length retrieved])"
    using assms by (intro lookup_row_result) simp_all
  also have "map (\<lambda>j. if j \<in> set [0..<length retrieved] then retrieved ! j + data ! i ! j else retrieved ! j)
            [0..<length retrieved] =
          map (\<lambda>j. retrieved ! j + data ! i ! j) [0..<length retrieved]"
    by (rule map_cong [OF refl]) simp
  finally show ?thesis .
qed

lemma in_radius_data_update [simp]:
  "in_radius (s\<lparr>sdm_data := data\<rparr>) key_vector i = in_radius s key_vector i"
  by (simp add: in_radius_def)

text \<open>
  What \<^verbatim>\<open>enter\<close> does to the counters: every row whose address is within the radius
  gets the votes of the data vector, the other rows stay.
\<close>

lemma enter_loop_result:
  "distinct is \<Longrightarrow>
   \<forall>i \<in> set is. in_radius s key_vector i \<longrightarrow>
      i < length (sdm_data s) \<and> length data_vector \<le> length (sdm_data s ! i) \<Longrightarrow>
   enter_loop is s key_vector data_vector =
     Inr (s\<lparr>sdm_data := map (\<lambda>i. if i \<in> set is \<and> in_radius s key_vector i
                                  then vote_row data_vector (sdm_data s ! i)
                                  else sdm_data s ! i) [0..<length (sdm_data s)]\<rparr>)"
proof (induction "is" arbitrary: s)
  case Nil
  then show ?case by (simp add: map_nth)
next
  case (Cons i "is")
  show ?case
  proof (cases "in_radius s key_vector i")
    case False
    then have "enter_loop (i # is) s key_vector data_vector = enter_loop is s key_vector data_vector"
      by (simp add: in_radius_def)
    also have "\<dots> = Inr (s\<lparr>sdm_data := map (\<lambda>i. if i \<in> set is \<and> in_radius s key_vector i
                                  then vote_row data_vector (sdm_data s ! i)
                                  else sdm_data s ! i) [0..<length (sdm_data s)]\<rparr>)"
      using Cons.prems by (intro Cons.IH) simp_all
    also have "map (\<lambda>i. if i \<in> set is \<and> in_radius s key_vector i
                                  then vote_row data_vector (sdm_data s ! i)
                                  else sdm_data s ! i) [0..<length (sdm_data s)] =
               map (\<lambda>k. if k \<in> set (i # is) \<and> in_radius s key_vector k
                                  then vote_row data_vector (sdm_data s ! k)
                                  else sdm_data s ! k) [0..<length (sdm_data s)]"
      using False by (intro map_cong [OF refl]) auto
    finally show ?thesis .
  next
    case True
    define data where "data = sdm_data s"
    define data' where "data' = data[i := vote_row data_vector (data ! i)]"
    define s' where "s' = s\<lparr>sdm_data := data'\<rparr>"
    have i: "i < length data" "length data_vector \<le> length (data ! i)"
      using Cons.prems True by (simp_all add: data_def)
    have notin: "i \<notin> set is"
      using Cons.prems by simp
    have "enter_row [0..<length data_vector] i data_vector (sdm_data s) = Inr data'"
      using i unfolding data'_def data_def by (rule enter_row_full)
    with True have "enter_loop (i # is) s key_vector data_vector =
        enter_loop is s' key_vector data_vector"
      by (simp add: in_radius_def s'_def)
    also have "\<dots> = Inr (s'\<lparr>sdm_data := map (\<lambda>k. if k \<in> set is \<and> in_radius s' key_vector k
                                  then vote_row data_vector (sdm_data s' ! k)
                                  else sdm_data s' ! k) [0..<length (sdm_data s')]\<rparr>)"
    proof (intro Cons.IH ballI impI)
      show "distinct is" using Cons.prems by simp
    next
      fix k
      assume k: "k \<in> set is" "in_radius s' key_vector k"
      then have "k \<noteq> i" "in_radius s key_vector k"
        using notin by (auto simp: s'_def)
      with k Cons.prems show "k < length (sdm_data s') \<and> length data_vector \<le> length (sdm_data s' ! k)"
        by (simp add: s'_def data'_def data_def)
    qed
    also have "map (\<lambda>k. if k \<in> set is \<and> in_radius s' key_vector k
                                  then vote_row data_vector (sdm_data s' ! k)
                                  else sdm_data s' ! k) [0..<length (sdm_data s')] =
               map (\<lambda>k. if k \<in> set (i # is) \<and> in_radius s key_vector k
                                  then vote_row data_vector (sdm_data s ! k)
                                  else sdm_data s ! k) [0..<length (sdm_data s)]"
    proof (rule map_cong)
      show "[0..<length (sdm_data s')] = [0..<length (sdm_data s)]"
        by (simp add: s'_def data'_def data_def)
    next
      fix k
      assume "k \<in> set [0..<length (sdm_data s)]"
      then have k: "k < length data" by (simp add: data_def)
      show "(if k \<in> set is \<and> in_radius s' key_vector k
                                  then vote_row data_vector (sdm_data s' ! k)
                                  else sdm_data s' ! k) =
            (if k \<in> set (i # is) \<and> in_radius s key_vector k
                                  then vote_row data_vector (sdm_data s ! k)
                                  else sdm_data s ! k)"
      proof (cases "k = i")
        case True
        with notin k \<open>in_radius s key_vector i\<close> show ?thesis
          by (simp add: s'_def data'_def data_def)
      next
        case False
        with k show ?thesis
          by (simp add: s'_def data'_def data_def)
      qed
    qed
    finally show ?thesis
      by (simp add: s'_def)
  qed
qed

lemma lookup_loop_result:
  "length retrieved = length key_vector \<Longrightarrow>
   \<forall>i \<in> set is. in_radius s key_vector i \<longrightarrow>
      i < length (sdm_data s) \<and> length key_vector \<le> length (sdm_data s ! i) \<Longrightarrow>
   lookup_loop is s key_vector retrieved =
     Inr (map (\<lambda>j. retrieved ! j +
                 sum_list (map (\<lambda>i. sdm_data s ! i ! j) (filter (in_radius s key_vector) is)))
            [0..<length key_vector])"
proof (induction "is" arbitrary: retrieved)
  case Nil
  have "map ((!) retrieved) [0..<length retrieved] = retrieved"
    by (rule map_nth)
  with Nil show ?case by simp
next
  case (Cons i "is")
  show ?case
  proof (cases "in_radius s key_vector i")
    case False
    then have "lookup_loop (i # is) s key_vector retrieved = lookup_loop is s key_vector retrieved"
      by (simp add: in_radius_def)
    with False Cons.IH [of retrieved] Cons.prems show ?thesis
      by simp
  next
    case True
    define r where "r = map (\<lambda>j. retrieved ! j + sdm_data s ! i ! j) [0..<length retrieved]"
    have "lookup_row [0..<length retrieved] i (sdm_data s) retrieved = Inr r"
      unfolding r_def using Cons.prems True by (intro lookup_row_full) simp_all
    with True Cons.prems have "lookup_loop (i # is) s key_vector retrieved = lookup_loop is s key_vector r"
      by (simp add: in_radius_def)
    also have "\<dots> = Inr (map (\<lambda>j. r ! j +
                 sum_list (map (\<lambda>i. sdm_data s ! i ! j) (filter (in_radius s key_vector) is)))
            [0..<length key_vector])"
      using Cons.prems by (intro Cons.IH) (simp_all add: r_def)
    also have "map (\<lambda>j. r ! j +
                 sum_list (map (\<lambda>i. sdm_data s ! i ! j) (filter (in_radius s key_vector) is)))
            [0..<length key_vector] =
          map (\<lambda>j. retrieved ! j +
                 sum_list (map (\<lambda>i. sdm_data s ! i ! j) (filter (in_radius s key_vector) (i # is))))
            [0..<length key_vector]"
      using True Cons.prems by (intro map_cong [OF refl]) (simp add: r_def)
    finally show ?thesis .
  qed
qed

lemma lookup_row_index_error:
  "\<exists>j \<in> set js. \<not> (i < length data \<and> j < length (data ! i)) \<Longrightarrow>
   lookup_row js i data retrieved = Inl IndexError"
  by (induction js arbitrary: retrieved) auto

lemma lookup_loop_index_error:
  "\<exists>i \<in> set is. in_radius s key_vector i \<Longrightarrow>
   \<forall>i \<in> set is. i < length (sdm_data s) \<and> length (sdm_data s ! i) < length key_vector \<Longrightarrow>
   lookup_loop is s key_vector retrieved = Inl IndexError"
proof (induction "is")
  case Nil
  then show ?case by simp
next
  case (Cons i "is")
  show ?case
  proof (cases "in_radius s key_vector i")
    case True
    have "length (sdm_data s ! i) < length key_vector"
      using Cons.prems by simp
    then have "\<exists>j \<in> set [0..<length key_vector].
        \<not> (i < length (sdm_data s) \<and> j < length (sdm_data s ! i))"
      by (intro bexI [of _ "length (sdm_data s ! i)"]) simp_all
    then have "lookup_row [0..<length key_vector] i (sdm_data s) retrieved = Inl IndexError"
      by (rule lookup_row_index_error)
    with True show ?thesis
      by (simp add: in_radius_def)
  next
    case False
    with Cons.prems have "\<exists>i \<in> set is. in_radius s key_vector i"
      by auto
    with Cons.IH Cons.prems have "lookup_loop is s key_vector retrieved = Inl IndexError"
      by simp
    with False show ?thesis
      by (simp add: in_radius_def)
  qed
qed

lemma lookup_loop_none_in_radius:
  "\<forall>i \<in> set is. \<not> in_radius s key_vector i \<Longrightarrow>
   lookup_loop is s key_vector retrieved = Inr retrieved"
  by (induction "is") (simp_all add: in_radius_def)

lemma hamming_distance_take:
  "hamming_distance a b = hamming_distance (take (length b) a) (take (length a) b)"
proof -
  have "zip (take (length b) a) (take (length a) b) = zip a b"
    by (induction a arbitrary: b) (simp, case_tac b, simp_all)
  then show ?thesis
    by (simp add: hamming_distance_def)
qed

lemma well_formed_rows:
  "well_formed s n \<Longrightarrow> i < length (sdm_keys s) \<Longrightarrow>
   i < length (sdm_data s) \<and> length (sdm_data s ! i) = n"
  by (simp add: well_formed_def list_all_length)

lemma hamming_loop_ok:
  "\<forall>i \<in> set is. i < length vector1 \<and> i < length vector2 \<Longrightarrow>
   \<exists>d. hamming_loop is vector1 vector2 distance = Inr d"
  by (induction "is" arbitrary: distance) simp_all

lemma hamming_distance_indexed_ok:
  "length vector1 \<le> length vector2 \<Longrightarrow> \<exists>d. hamming_distance_indexed vector1 vector2 = Inr d"
  unfolding hamming_distance_indexed_def by (rule hamming_loop_ok) simp

text \<open>What \<^verbatim>\<open>enter\<close> and \<^verbatim>\<open>lookup\<close> return on a well-formed memory.\<close>

lemma enter_well_formed:
  assumes "well_formed s n" "length data_vector \<le> n"
  shows "enter s key_vector data_vector =
     Inr (s\<lparr>sdm_data := map (\<lambda>i. if in_radius s key_vector i
                                  then vote_row data_vector (sdm_data s ! i)
                                  else sdm_data s ! i) [0..<length (sdm_data s)]\<rparr>)"
proof -
  have len: "length (sdm_data s) = length (sdm_keys s)"
    using assms by (simp add: well_formed_def)
  have "enter_loop [0..<length (sdm_keys s)] s key_vector data_vector =
     Inr (s\<lparr>sdm_data := map (\<lambda>i. if i \<in> set [0..<length (sdm_keys s)] \<and> in_radius s key_vector i
                                  then vote_row data_vector (sdm_data s ! i)
                                  else sdm_data s ! i) [0..<length (sdm_data s)]\<rparr>)"
    using assms well_formed_rows [OF assms(1)] by (intro enter_loop_result) simp_all
  also have "map (\<lambda>i. if i \<in> set [0..<length (sdm_keys s)] \<and> in_radius s key_vector i
                                  then vote_row data_vector (sdm_data s ! i)
                                  else sdm_data s ! i) [0..<length (sdm_data s)] =
             map (\<lambda>i. if in_radius s key_vector i
                                  then vote_row data_vector (sdm_data s ! i)
                                  else sdm_data s ! i) [0..<length (sdm_data s)]"
    using len by (intro map_cong [OF refl]) simp
  finally show ?thesis
    by (simp add: enter_def)
qed

lemma lookup_well_formed:
  assumes "well_formed s n" "length key_vector \<le> n"
  shows "lookup s key_vector =
     Inr (map (\<lambda>j. if accumulator s key_vector j > 0 then 1 else 0) [0..<length key_vector])"
proof -
  have "lookup_loop [0..<length (sdm_keys s)] s key_vector (replicate (length key_vector) 0) =
     Inr (map (\<lambda>j. replicate (length key_vector) 0 ! j +
                 sum_list (map (\<lambda>i. sdm_data s ! i ! j)
                   (filter (in_radius s key_vector) [0..<length (sdm_keys s)])))
            [0..<length key_vector])"
    using assms well_formed_rows [OF assms(1)] by (intro lookup_loop_result) simp_all
  also have "map (\<lambda>j. replicate (length key_vector) 0 ! j +
                 sum_list (map (\<lambda>i. sdm_data s ! i ! j)
                   (filter (in_radius s key_vector) [0..<length (sdm_keys s)])))
            [0..<length key_vector] =
          map (accumulator s key_vector) [0..<length key_vector]"
    by (intro map_cong [OF refl]) (simp add: accumulator_def)
  finally show ?thesis
    by (simp add: lookup_def comp_def)
qed

text \<open>
  C2. A memory with a single address, an all-zero counter row of length \<open>n\<close> and radius
  \<open>n\<close>: for every key vector of length \<open>n\<close> and every bit pattern of length \<open>n\<close>,
  one \<^verbatim>\<open>enter\<close> of the pattern at the key followed by one \<^verbatim>\<open>lookup\<close> at the same
  key returns the pattern.
\<close>

theorem single_write_recall:
  assumes "sdm_keys s = [address]" "sdm_data s = [replicate n 0]" "sdm_radius s = int n"
    and "length key_vector = n" "length pattern = n" "set pattern \<subseteq> {0, 1}"
  shows "\<exists>s'. enter s key_vector pattern = Inr s' \<and> lookup s' key_vector = Inr pattern"
proof -
  have "hamming_distance address key_vector \<le> int (min (length address) (length key_vector))"
    using hamming_distance_bounds [of address key_vector] by simp
  also have "\<dots> \<le> int n"
    using assms by simp
  finally have near: "in_radius s key_vector 0"
    using assms by (simp add: in_radius_def)
  define row where "row = vote_row pattern (replicate n 0)"
  define s' where "s' = s\<lparr>sdm_data := [row]\<rparr>"
  have "enter_loop [0] s key_vector pattern =
     Inr (s\<lparr>sdm_data := map (\<lambda>i. if i \<in> set [0] \<and> in_radius s key_vector i
                                  then vote_row pattern (sdm_data s ! i)
                                  else sdm_data s ! i) [0..<length (sdm_data s)]\<rparr>)"
    using assms by (intro enter_loop_result) simp_all
  then have ent: "enter s key_vector pattern = Inr s'"
    using assms near by (simp add: enter_def s'_def row_def)
  have near': "in_radius s' key_vector 0"
    using near by (simp add: s'_def)
  have "lookup_loop [0] s' key_vector (replicate (length key_vector) 0) =
     Inr (map (\<lambda>j. replicate (length key_vector) 0 ! j +
                 sum_list (map (\<lambda>i. sdm_data s' ! i ! j) (filter (in_radius s' key_vector) [0])))
            [0..<length key_vector])"
    using assms by (intro lookup_loop_result) (simp_all add: s'_def row_def)
  also have "map (\<lambda>j. replicate (length key_vector) 0 ! j +
                 sum_list (map (\<lambda>i. sdm_data s' ! i ! j) (filter (in_radius s' key_vector) [0])))
            [0..<length key_vector] = map (\<lambda>j. row ! j) [0..<n]"
    using near' assms by (intro map_cong) (simp_all add: s'_def)
  finally have "lookup s' key_vector =
      Inr (map (\<lambda>x. if x > 0 then 1 else 0) (map (\<lambda>j. row ! j) [0..<n]))"
    using assms by (simp add: lookup_def s'_def)
  also have "map (\<lambda>x. if x > 0 then 1 else 0) (map (\<lambda>j. row ! j) [0..<n]) = pattern"
  proof (rule nth_equalityI)
    show "length (map (\<lambda>x. if x > 0 then 1 else 0) (map (\<lambda>j. row ! j) [0..<n])) = length pattern"
      using assms by simp
  next
    fix j
    assume "j < length (map (\<lambda>x. if x > 0 then 1 else 0) (map (\<lambda>j. row ! j) [0..<n]))"
    then have j: "j < n" by simp
    then have "pattern ! j \<in> set pattern"
      using assms by simp
    then have "pattern ! j \<in> {0, 1}"
      using assms by blast
    moreover have "row ! j = (if pattern ! j = 1 then 1 else - 1)"
      using j assms by (simp add: row_def vote_row_def)
    ultimately show "map (\<lambda>x. if x > 0 then 1 else 0) (map (\<lambda>j. row ! j) [0..<n]) ! j = pattern ! j"
      using j by auto
  qed
  finally show ?thesis
    using ent by blast
qed

theorem single_write_recall_witness:
  "\<exists>s'. enter \<lparr>sdm_p = 1, sdm_n = 8, sdm_keys = [[0, 1, 1, 0, 1, 0, 0, 1]],
                 sdm_data = [replicate 8 0], sdm_radius = 8\<rparr>
               [1, 1, 1, 1, 0, 0, 0, 0] [1, 0, 1, 1, 0, 0, 1, 0] = Inr s' \<and>
        lookup s' [1, 1, 1, 1, 0, 0, 0, 0] = Inr [1, 0, 1, 1, 0, 0, 1, 0]"
  using single_write_recall [of "\<lparr>sdm_p = 1, sdm_n = 8, sdm_keys = [[0, 1, 1, 0, 1, 0, 0, 1]],
                 sdm_data = [replicate 8 0], sdm_radius = 8\<rparr>"
      "[0, 1, 1, 0, 1, 0, 0, 1]" 8 "[1, 1, 1, 1, 0, 0, 0, 0]" "[1, 0, 1, 1, 0, 0, 1, 0]"]
  by simp

text \<open>
  C8, as the code has it. Neither \<^verbatim>\<open>enter\<close> nor \<^verbatim>\<open>lookup\<close> compares the length of the
  key vector with \<open>n\<close>, and \<^verbatim>\<open>hamming_distance\<close> looks at the common prefix of its two
  arguments only. On a well-formed memory \<^verbatim>\<open>enter\<close> succeeds for a key vector of any
  length; \<^verbatim>\<open>lookup\<close> succeeds for a key vector of at most \<open>n\<close> elements and returns as
  many bits as the key has; for a longer key \<^verbatim>\<open>lookup\<close> raises \<^verbatim>\<open>IndexError\<close> when some
  address is within the radius and returns zeros otherwise. In
  \<^verbatim>\<open>sparse_malicious_memory.py\<close> the distance to the zero-filled key is computed for a
  key of any length.
\<close>

theorem key_length_unchecked:
  assumes "well_formed s n" "length data_vector \<le> n"
  shows "(\<exists>s'. enter s key_vector data_vector = Inr s') \<and>
         hamming_distance address key_vector =
           hamming_distance (take (length key_vector) address) (take (length address) key_vector) \<and>
         (length key_vector \<le> n \<longrightarrow>
            (\<exists>bits. lookup s key_vector = Inr bits \<and> length bits = length key_vector)) \<and>
         (n < length key_vector \<longrightarrow>
            lookup s key_vector =
              (if \<exists>i \<in> set [0..<length (sdm_keys s)]. in_radius s key_vector i
               then Inl IndexError else Inr (replicate (length key_vector) 0))) \<and>
         (\<exists>hdist. hamming_distance_indexed address (padded_addressVector address key_vector) =
            Inr hdist)"
proof (intro conjI impI)
  show "\<exists>s'. enter s key_vector data_vector = Inr s'"
    using enter_well_formed [OF assms] by blast
  show "\<exists>hdist. hamming_distance_indexed address (padded_addressVector address key_vector) =
            Inr hdist"
    by (rule hamming_distance_indexed_ok) (simp add: padded_addressVector_def)
  show "hamming_distance address key_vector =
           hamming_distance (take (length key_vector) address) (take (length address) key_vector)"
    by (rule hamming_distance_take)
next
  assume "length key_vector \<le> n"
  then show "\<exists>bits. lookup s key_vector = Inr bits \<and> length bits = length key_vector"
    using lookup_well_formed [OF assms(1)] by simp
next
  assume long: "n < length key_vector"
  show "lookup s key_vector =
              (if \<exists>i \<in> set [0..<length (sdm_keys s)]. in_radius s key_vector i
               then Inl IndexError else Inr (replicate (length key_vector) 0))"
  proof (cases "\<exists>i \<in> set [0..<length (sdm_keys s)]. in_radius s key_vector i")
    case True
    have "\<forall>i \<in> set [0..<length (sdm_keys s)].
        i < length (sdm_data s) \<and> length (sdm_data s ! i) < length key_vector"
      using well_formed_rows [OF assms(1)] long by simp
    with True have "lookup_loop [0..<length (sdm_keys s)] s key_vector
        (replicate (length key_vector) 0) = Inl IndexError"
      by (rule lookup_loop_index_error)
    with True show ?thesis
      by (simp add: lookup_def)
  next
    case False
    then have "lookup_loop [0..<length (sdm_keys s)] s key_vector
        (replicate (length key_vector) 0) = Inr (replicate (length key_vector) 0)"
      by (intro lookup_loop_none_in_radius) simp
    with False show ?thesis
      by (simp add: lookup_def)
  qed
qed

theorem key_length_unchecked_witness:
  "(\<exists>s'. enter \<lparr>sdm_p = 1, sdm_n = 2, sdm_keys = [[0, 1]], sdm_data = [[0, 0]], sdm_radius = 0\<rparr>
            [0] [1, 0] = Inr s') \<and>
   (\<exists>bits. lookup \<lparr>sdm_p = 1, sdm_n = 2, sdm_keys = [[0, 1]], sdm_data = [[0, 0]], sdm_radius = 0\<rparr>
            [0] = Inr bits \<and> length bits = 1)"
  using key_length_unchecked [of "\<lparr>sdm_p = 1, sdm_n = 2, sdm_keys = [[0, 1]], sdm_data = [[0, 0]],
      sdm_radius = 0\<rparr>" 2 "[1, 0]" "[0]"]
  by (simp add: well_formed_def)

theorem key_length_checked_counterexample:
  "length [0 :: int] \<noteq> 2 \<and>
   enter \<lparr>sdm_p = 1, sdm_n = 2, sdm_keys = [[0, 1]], sdm_data = [[0, 0]], sdm_radius = 0\<rparr>
     [0] [1, 0] =
     Inr \<lparr>sdm_p = 1, sdm_n = 2, sdm_keys = [[0, 1]], sdm_data = [[1, - 1]], sdm_radius = 0\<rparr> \<and>
   lookup \<lparr>sdm_p = 1, sdm_n = 2, sdm_keys = [[0, 1]], sdm_data = [[1, - 1]], sdm_radius = 0\<rparr>
     [0] = Inr [1]"
  by (simp add: enter_def lookup_def hamming_distance_def)

section \<open>Properties of the chunking\<close>

lemma concat_windows:
  "q * c \<le> length xs \<Longrightarrow>
   concat (map (\<lambda>i. take c (drop (i * c) xs)) [0..<q]) = take (q * c) xs"
proof (induction q)
  case 0
  then show ?case by simp
next
  case (Suc q)
  then have "concat (map (\<lambda>i. take c (drop (i * c) xs)) [0..<Suc q]) =
             take (q * c) xs @ take c (drop (q * c) xs)"
    by simp
  also have "\<dots> = take (q * c + c) xs"
    by (simp add: take_add)
  finally show ?case by (simp add: add.commute)
qed

lemma py_slice_window:
  assumes "(i + 1) * c \<le> length xs"
  shows "py_slice xs (int i * int c) ((int i + 1) * int c) = take c (drop (i * c) xs)"
proof -
  have a: "py_clamp (int (length xs)) (int i * int c) = i * c"
  proof -
    have "int i * int c = int (i * c)" by simp
    moreover have "i * c \<le> length xs" using assms by simp
    ultimately show ?thesis
      unfolding py_clamp_def by (simp del: of_nat_mult)
  qed
  have b: "py_clamp (int (length xs)) ((int i + 1) * int c) = (i + 1) * c"
  proof -
    have "(int i + 1) * int c = int ((i + 1) * c)" by (simp add: algebra_simps)
    then show ?thesis
      unfolding py_clamp_def using assms by (simp del: of_nat_mult of_nat_add of_nat_Suc)
  qed
  show ?thesis
    unfolding py_slice_def Let_def a b by simp
qed

lemma chunk_binary_data_nat:
  assumes "0 < c"
  shows "chunk_binary_data xs (int c) =
     Inr (map (\<lambda>i. take c (drop (i * c) xs)) [0..<length xs div c] @
          (if 0 < length xs mod c
           then [drop (length xs - length xs mod c) xs @ replicate (c - length xs mod c) 0]
           else []))"
proof -
  have q: "int (length xs) div int c = int (length xs div c)"
    by (simp add: zdiv_int)
  have r: "int (length xs) mod int c = int (length xs mod c)"
    by (simp add: zmod_int)
  have win: "map (\<lambda>i. py_slice xs (i * int c) ((i + 1) * int c)) (py_range (int (length xs div c))) =
             map (\<lambda>i. take c (drop (i * c) xs)) [0..<length xs div c]"
  proof -
    have "\<And>i. i < length xs div c \<Longrightarrow> (i + 1) * c \<le> length xs"
    proof -
      fix i
      assume "i < length xs div c"
      then have "(i + 1) * c \<le> (length xs div c) * c"
        by (intro mult_le_mono1) simp
      also have "\<dots> \<le> length xs" by simp
      finally show "(i + 1) * c \<le> length xs" .
    qed
    then show ?thesis
      by (simp add: py_range_def comp_def py_slice_window)
  qed
  have last: "py_slice_from xs (- int (length xs mod c)) = drop (length xs - length xs mod c) xs"
    if "0 < length xs mod c"
  proof -
    have "length xs mod c \<le> length xs" by (rule mod_less_eq_dividend)
    then have "py_clamp (int (length xs)) (- int (length xs mod c)) = length xs - length xs mod c"
      using that unfolding py_clamp_def by (simp add: nat_diff_distrib')
    then show ?thesis by (simp add: py_slice_from_def)
  qed
  have pad: "nat (int c - int (length xs mod c)) = c - length xs mod c"
    by simp
  show ?thesis
    using assms unfolding chunk_binary_data_def Let_def q r win
    by (simp add: last pad)
qed

lemma chunk_binary_data_parts:
  fixes xs :: "int list" and c :: nat
  defines "pad \<equiv> (if 0 < length xs mod c then c - length xs mod c else 0)"
  assumes "0 < c"
  shows "\<exists>chunks. chunk_binary_data xs (int c) = Inr chunks \<and>
           (\<forall>chunk \<in> set chunks. length chunk = c) \<and>
           pad < c \<and>
           concat chunks = xs @ replicate pad 0 \<and>
           length chunks * c = length xs + pad"
proof -
  define q where "q = length xs div c"
  define r where "r = length xs mod c"
  define windows where "windows = map (\<lambda>i. take c (drop (i * c) xs)) [0..<q]"
  define final where "final = (if 0 < r then [drop (length xs - r) xs @ replicate (c - r) 0] else [])"
  have len: "length xs = q * c + r"
    by (simp add: q_def r_def)
  have r_less: "r < c"
    using assms(2) by (simp add: r_def)
  have chunks: "chunk_binary_data xs (int c) = Inr (windows @ final)"
    using chunk_binary_data_nat [OF assms(2), of xs]
    by (simp add: windows_def final_def q_def r_def)
  have win_len: "\<forall>chunk \<in> set windows. length chunk = c"
  proof
    fix chunk
    assume "chunk \<in> set windows"
    then obtain i where i: "i < q" "chunk = take c (drop (i * c) xs)"
      by (auto simp: windows_def)
    from i have "(i + 1) * c \<le> q * c"
      by (intro mult_le_mono1) simp
    then have "i * c + c \<le> length xs"
      using len by (simp add: algebra_simps)
    with i show "length chunk = c"
      by simp
  qed
  have fin_len: "\<forall>chunk \<in> set final. length chunk = c"
    using r_less len by (auto simp: final_def)
  have win_cat: "concat windows = take (q * c) xs"
    unfolding windows_def using len by (intro concat_windows) simp
  have pad_r: "pad = (if 0 < r then c - r else 0)"
    by (simp add: pad_def r_def)
  have fin_cat: "concat final = drop (q * c) xs @ replicate pad 0"
    using len by (simp add: final_def pad_r)
  have cat: "concat (windows @ final) = xs @ replicate pad 0"
    using win_cat fin_cat by simp
  have pad_less: "pad < c"
    using assms(2) r_less by (simp add: pad_r)
  have count: "length (windows @ final) * c = length xs + pad"
    using len r_less by (simp add: windows_def final_def pad_r algebra_simps)
  show ?thesis
    using chunks win_len fin_len cat pad_less count by auto
qed

lemma join_chunks_padded:
  "concat chunks = xs @ zs \<Longrightarrow> join_chunks chunks (int (length xs)) = xs"
  by (simp add: join_chunks_def py_slice_to_def py_clamp_def)

text \<open>
  C6. For a positive chunk size \<^verbatim>\<open>chunk_binary_data\<close> returns chunks that all have the
  chunk size and that, laid end to end, are the payload followed by fewer than
  chunk-size zeros; cutting that concatenation at the payload's length gives the payload
  back. A payload of 20 bits with chunk size 8 gives three chunks, the last one being the
  payload's last 4 bits and 4 zeros.
\<close>

theorem chunk_split_join:
  "(0 < chunk_size \<longrightarrow>
      (\<exists>chunks pad. chunk_binary_data payload chunk_size = Inr chunks \<and>
         (\<forall>chunk \<in> set chunks. int (length chunk) = chunk_size) \<and>
         int pad < chunk_size \<and>
         concat chunks = payload @ replicate pad 0 \<and>
         join_chunks chunks (int (length payload)) = payload)) \<and>
   (length payload = 20 \<longrightarrow>
      chunk_binary_data payload 8 =
        Inr [take 8 payload, take 8 (drop 8 payload), drop 16 payload @ [0, 0, 0, 0]] \<and>
      join_chunks [take 8 payload, take 8 (drop 8 payload), drop 16 payload @ [0, 0, 0, 0]] 20 =
        payload)"
proof (intro conjI impI)
  assume pos: "0 < chunk_size"
  define c where "c = nat chunk_size"
  have c: "0 < c" "chunk_size = int c"
    using pos by (simp_all add: c_def)
  obtain chunks where chunks: "chunk_binary_data payload (int c) = Inr chunks"
      "\<forall>chunk \<in> set chunks. length chunk = c"
      "(if 0 < length payload mod c then c - length payload mod c else 0) < c"
      "concat chunks =
         payload @ replicate (if 0 < length payload mod c then c - length payload mod c else 0) 0"
    using chunk_binary_data_parts [OF c(1), of payload] by blast
  have "join_chunks chunks (int (length payload)) = payload"
    using chunks(4) by (rule join_chunks_padded)
  with chunks c
  show "\<exists>chunks pad. chunk_binary_data payload chunk_size = Inr chunks \<and>
         (\<forall>chunk \<in> set chunks. int (length chunk) = chunk_size) \<and>
         int pad < chunk_size \<and>
         concat chunks = payload @ replicate pad 0 \<and>
         join_chunks chunks (int (length payload)) = payload"
    by (intro exI [of _ chunks]
        exI [of _ "if 0 < length payload mod c then c - length payload mod c else 0"]) simp
next
  assume len: "length payload = 20"
  have "chunk_binary_data payload (int 8) =
     Inr (map (\<lambda>i. take 8 (drop (i * 8) payload)) [0..<length payload div 8] @
          (if 0 < length payload mod 8
           then [drop (length payload - length payload mod 8) payload @
                 replicate (8 - length payload mod 8) 0]
           else []))"
    by (rule chunk_binary_data_nat) simp
  moreover have "[0..<2] = [0, Suc 0]"
    by (simp add: upt_rec)
  moreover have "replicate 4 (0 :: int) = [0, 0, 0, 0]"
    by (simp add: numeral_eq_Suc)
  moreover have "(20 :: nat) div 8 = 2" "(20 :: nat) mod 8 = 4" "(20 :: nat) - 4 = 16"
    "(8 :: nat) - 4 = 4"
    by simp_all
  ultimately show "chunk_binary_data payload 8 =
        Inr [take 8 payload, take 8 (drop 8 payload), drop 16 payload @ [0, 0, 0, 0]]"
    using len by simp
  have "concat [take 8 payload, take 8 (drop 8 payload), drop 16 payload @ [0, 0, 0, 0]] =
        payload @ [0, 0, 0, 0]"
  proof -
    have "take 8 payload @ take 8 (drop 8 payload) = take (8 + 8) payload"
      by (simp only: take_add)
    then have "(take 8 payload @ take 8 (drop 8 payload)) @ drop 16 payload =
               take 16 payload @ drop 16 payload"
      by simp
    then have "take 8 payload @ take 8 (drop 8 payload) @ drop 16 payload = payload"
      by (simp only: append_assoc append_take_drop_id)
    then show ?thesis by simp
  qed
  then have "join_chunks [take 8 payload, take 8 (drop 8 payload), drop 16 payload @ [0, 0, 0, 0]]
      (int (length payload)) = payload"
    by (rule join_chunks_padded)
  with len show "join_chunks [take 8 payload, take 8 (drop 8 payload), drop 16 payload @ [0, 0, 0, 0]] 20 =
        payload"
    by simp
qed

theorem chunk_split_join_witness:
  "(0 :: int) < 3 \<and>
   chunk_binary_data [1, 0, 1, 1, 1] 3 = Inr [[1, 0, 1], [1, 1, 0]] \<and>
   join_chunks [[1, 0, 1], [1, 1, 0]] 5 = [1, 0, 1, 1, 1] \<and>
   length (replicate 20 (1 :: int)) = 20 \<and>
   join_chunks [take 8 (replicate 20 1), take 8 (drop 8 (replicate 20 1)),
                drop 16 (replicate 20 1) @ [0, 0, 0, 0]] 20 = replicate 20 1"
proof -
  have a: "chunk_binary_data [1, 0, 1, 1, 1] 3 = Inr [[1, 0, 1], [1, 1, 0]]"
    by (simp add: chunk_binary_data_def py_range_def py_slice_def py_slice_from_def py_clamp_def
        upt_rec numeral_eq_Suc)
  have "0 < (3 :: int)" by simp
  then obtain chunks where "chunk_binary_data [1, 0, 1, 1, 1] 3 = Inr chunks"
      "join_chunks chunks (int (length [1, 0, 1, 1, 1 :: int])) = [1, 0, 1, 1, 1]"
    using chunk_split_join [of 3 "[1, 0, 1, 1, 1]"] by blast
  with a have b: "join_chunks [[1, 0, 1], [1, 1, 0]] 5 = [1, 0, 1, 1, 1]"
    by simp
  have c: "join_chunks [take 8 (replicate 20 1), take 8 (drop 8 (replicate 20 1)),
                drop 16 (replicate 20 1) @ [0, 0, 0, 0]] 20 = replicate 20 1"
    using chunk_split_join [of 3 "replicate 20 1"] by simp
  show ?thesis
    using a b c by simp
qed

section \<open>Properties of the constructors and of the other memory\<close>

lemma round_to_53_bits_small:
  "m < 2 ^ 53 \<Longrightarrow> round_to_53_bits m = m"
proof -
  assume "m < 2 ^ 53"
  then have "floorlog 2 m \<le> 53"
    by (intro floorlog_leI) simp_all
  then show ?thesis
    by (simp add: round_to_53_bits_def)
qed

lemma round_to_53_bits_bounds:
  assumes "m < 2 ^ (53 + t)"
  shows "\<exists>s. s \<le> t \<and> (m div 2 ^ s) * 2 ^ s \<le> round_to_53_bits m \<and>
             round_to_53_bits m \<le> m + 2 ^ s"
proof (cases "floorlog 2 m \<le> 53")
  case True
  then have "round_to_53_bits m = m"
    by (simp add: round_to_53_bits_def)
  then show ?thesis
    by (intro exI [of _ 0]) simp
next
  case False
  define s where "s = floorlog 2 m - 53"
  define q where "q = m div 2 ^ s"
  have "floorlog 2 m \<le> 53 + t"
    using assms by (intro floorlog_leI) simp_all
  then have s: "s \<le> t"
    by (simp add: s_def)
  have R: "round_to_53_bits m = q * 2 ^ s \<or> round_to_53_bits m = (q + 1) * 2 ^ s"
    using False by (simp add: round_to_53_bits_def Let_def s_def q_def)
  have "q * 2 ^ s \<le> m"
    by (simp add: q_def)
  then have "(q + 1) * 2 ^ s \<le> m + 2 ^ s"
    by (simp add: algebra_simps)
  with R have "q * 2 ^ s \<le> round_to_53_bits m \<and> round_to_53_bits m \<le> m + 2 ^ s"
    by auto
  with s show ?thesis
    unfolding q_def by blast
qed

lemma float_0451_floor:
  assumes "n < 2 ^ 40"
  shows "round_to_53_bits (float_0451_mantissa * n) div 2 ^ 54 = (451 * n) div 1000"
proof -
  define B :: nat where "B = 2 ^ 54"
  define M where "M = float_0451_mantissa"
  define P where "P = M * n"
  define R where "R = round_to_53_bits P"
  define k where "k = (451 * n) div 1000"
  define r where "r = (451 * n) mod 1000"
  have M: "1000 * M = 451 * B + 216"
    by (simp add: M_def B_def float_0451_mantissa_def)
  have Mlt: "M < 2 ^ 53"
    by (simp add: M_def float_0451_mantissa_def)
  have small: "1216 * 2 ^ 40 < B"
    by (simp add: B_def)
  have n: "451 * n = 1000 * k + r" "r < 1000"
    by (simp_all add: k_def r_def)
  have "M * n < 2 ^ 53 * 2 ^ 40"
    using Mlt assms by (intro mult_strict_mono) simp_all
  then have "P < 2 ^ (53 + 40)"
    by (simp add: P_def power_add)
  then obtain s where s: "s \<le> 40" "(P div 2 ^ s) * 2 ^ s \<le> R" "R \<le> P + 2 ^ s"
    using round_to_53_bits_bounds [of P 40] unfolding R_def by blast
  have P1000: "1000 * P = B * (1000 * k + r) + 216 * n"
  proof -
    have "1000 * P = (1000 * M) * n" by (simp add: P_def)
    also have "\<dots> = (451 * B + 216) * n" by (simp only: M)
    also have "\<dots> = B * (451 * n) + 216 * n" by (simp add: algebra_simps)
    finally show ?thesis by (simp add: n)
  qed
  have lower: "B * k \<le> R"
  proof -
    have "1000 * (B * k) \<le> 1000 * P"
      unfolding P1000 by (simp add: algebra_simps)
    then have "B * k \<le> P" by simp
    moreover have "B = 2 ^ (54 - s) * 2 ^ s"
      using s(1) by (simp add: B_def flip: power_add)
    ultimately have "(k * 2 ^ (54 - s)) * 2 ^ s \<le> P"
      by (simp add: algebra_simps)
    then have "k * 2 ^ (54 - s) \<le> P div 2 ^ s"
      by (simp add: less_eq_div_iff_mult_less_eq)
    then have "(k * 2 ^ (54 - s)) * 2 ^ s \<le> (P div 2 ^ s) * 2 ^ s"
      by (rule mult_le_mono1)
    also have "\<dots> \<le> R" by (rule s(2))
    finally show ?thesis
      using \<open>B = 2 ^ (54 - s) * 2 ^ s\<close> by (simp add: algebra_simps)
  qed
  have upper: "R < B * Suc k"
  proof -
    have "(2::nat) ^ s \<le> 2 ^ 40"
      using s(1) by (intro power_increasing) simp_all
    with s(3) have "1000 * R \<le> 1000 * P + 1000 * 2 ^ 40"
      by simp
    also have "\<dots> = B * (1000 * k + r) + 216 * n + 1000 * 2 ^ 40"
      by (simp add: P1000)
    also have "\<dots> \<le> B * (1000 * k + 999) + 216 * 2 ^ 40 + 1000 * 2 ^ 40"
      using n(2) assms by (intro add_mono mult_le_mono) simp_all
    also have "\<dots> < B * (1000 * k + 999) + B"
      using small by simp
    also have "\<dots> = 1000 * (B * Suc k)"
      by (simp add: algebra_simps)
    finally show ?thesis by simp
  qed
  have "R div B = k"
    using lower upper by (intro div_nat_eqI) simp_all
  then show ?thesis
    by (simp add: R_def P_def M_def B_def k_def)
qed


lemma py_float_mul_0451_nonneg:
  assumes "0 \<le> n" "n < 2 ^ 40"
  shows "py_float_mul_0451 n =
           Inr (of_nat (round_to_53_bits (float_0451_mantissa * nat n)) / of_nat (2 ^ 54))"
proof -
  have "nat n < 2 ^ 40"
    using assms by (simp add: nat_less_iff)
  also have "(2::nat) ^ 40 < 2 ^ 53" by simp
  finally have lt: "nat n < 2 ^ 53" .
  then have conv: "round_to_53_bits (nat \<bar>n\<bar>) = nat n"
    using assms by (simp add: round_to_53_bits_small)
  have "(2::nat) ^ 53 < 2 ^ 1024" by simp
  with lt have no_ovf: "\<not> 2 ^ 1024 \<le> nat n" by simp
  show ?thesis
  proof (cases "n = 0")
    case True
    then show ?thesis
      by (simp add: py_float_mul_0451_def conv round_to_53_bits_small)
  next
    case False
    with assms have "sgn n = 1" by simp
    then show ?thesis
      using no_ovf by (simp add: py_float_mul_0451_def conv)
  qed
qed

lemma floor_0451:
  "\<lfloor>(451 / 1000 :: rat) * of_int n\<rfloor> = (451 * n) div 1000"
proof -
  have "(451 / 1000 :: rat) * of_int n = of_int (451 * n) / of_int 1000"
    by simp
  then show ?thesis
    by (simp only: floor_divide_of_int_eq)
qed

lemma float_0451_floor_rat:
  assumes "0 \<le> n" "n < 2 ^ 40"
  shows "\<lfloor>(of_nat (round_to_53_bits (float_0451_mantissa * nat n)) / of_nat (2 ^ 54) :: rat)\<rfloor> =
         \<lfloor>(451 / 1000 :: rat) * of_int n\<rfloor>"
proof -
  have "nat n < 2 ^ 40"
    using assms by (simp add: nat_less_iff)
  then have "round_to_53_bits (float_0451_mantissa * nat n) div 2 ^ 54 = (451 * nat n) div 1000"
    by (rule float_0451_floor)
  then have "\<lfloor>(of_nat (round_to_53_bits (float_0451_mantissa * nat n)) / of_nat (2 ^ 54) :: rat)\<rfloor> =
             int ((451 * nat n) div 1000)"
    by (simp only: floor_divide_of_nat_eq)
  also have "\<dots> = (451 * n) div 1000"
    using assms by (simp add: zdiv_int)
  finally show ?thesis
    by (simp only: floor_0451)
qed

lemma compression_test_radius_floor:
  assumes "0 \<le> n" "n < 2 ^ 40"
  shows "compression_test_radius n = Inr \<lfloor>(451 / 1000 :: rat) * of_int n\<rfloor>"
proof -
  have "(0 :: rat) \<le> of_nat (round_to_53_bits (float_0451_mantissa * nat n)) / of_nat (2 ^ 54)"
    by (intro divide_nonneg_nonneg) simp_all
  then have "py_int_of_float (of_nat (round_to_53_bits (float_0451_mantissa * nat n)) / of_nat (2 ^ 54)) =
             \<lfloor>(451 / 1000 :: rat) * of_int n\<rfloor>"
    by (simp only: py_int_of_float_def if_True float_0451_floor_rat [OF assms])
  then show ?thesis
    by (simp only: compression_test_radius_def py_float_mul_0451_nonneg [OF assms] sum.case)
qed

lemma float_radius_256:
  "py_float_mul_0451 256 = Inr (8124493727776375 / 70368744177664)"
proof -
  have a: "round_to_53_bits 256 = 256"
    by (rule round_to_53_bits_small) simp
  have "floorlog 2 (8124493727776375 * 2 ^ 8) = floorlog 2 8124493727776375 + 8"
    by (rule floorlog_power) simp_all
  moreover have "floorlog 2 8124493727776375 = 53"
  proof (rule antisym)
    show "floorlog 2 8124493727776375 \<le> 53"
      by (rule floorlog_leI) simp_all
    show "53 \<le> floorlog 2 8124493727776375"
      by (rule floorlog_geI) simp_all
  qed
  ultimately have len: "floorlog 2 2079870394310752000 = 61"
    by simp
  have b: "round_to_53_bits 2079870394310752000 = 2079870394310752000"
    by (simp add: round_to_53_bits_def len Let_def)
  show ?thesis
    by (simp add: py_float_mul_0451_def a b float_0451_mantissa_def)
qed

lemma draw_vectors_prefix:
  "i < k1 \<Longrightarrow> i < k2 \<Longrightarrow>
   fst (draw_vectors randint01 k1 n g) ! i = fst (draw_vectors randint01 k2 n g) ! i"
proof (induction k1 arbitrary: k2 g i)
  case 0
  then show ?case by simp
next
  case (Suc k1)
  then obtain k2' where k2: "k2 = Suc k2'"
    by (cases k2) simp_all
  show ?case
  proof (cases i)
    case 0
    then show ?thesis
      by (simp add: k2 split: prod.splits)
  next
    case (Suc i')
    with Suc.prems k2 have "i' < k1" "i' < k2'" by simp_all
    then have "fst (draw_vectors randint01 k1 n g') ! i' = fst (draw_vectors randint01 k2' n g') ! i'"
      for g' by (rule Suc.IH)
    then show ?thesis
      by (simp add: k2 Suc split: prod.splits) (metis fst_conv)
  qed
qed

lemma hamming_distance_self: "hamming_distance a a = 0"
  by (induction a) (simp_all add: hamming_distance_def)


lemma sdmTest_lookup_loop_result:
  "length retrieved = nat (st_n s) \<Longrightarrow>
   \<forall>i \<in> set is. i < length (st_addresses s) \<and> length (st_addresses s ! i) \<le> length addressVector \<and>
      i < length (st_data s) \<and> nat (st_n s) \<le> length (st_data s ! i) \<Longrightarrow>
   sdmTest_lookup_loop is s addressVector retrieved =
     Inr (map (\<lambda>j. retrieved ! j +
                 sum_list (map (\<lambda>i. st_data s ! i ! j) (filter (st_in_radius s addressVector) is)))
            [0..<nat (st_n s)])"
proof (induction "is" arbitrary: retrieved)
  case Nil
  have "map ((!) retrieved) [0..<length retrieved] = retrieved"
    by (rule map_nth)
  with Nil show ?case by simp
next
  case (Cons i "is")
  obtain d where d: "hamming_distance_indexed (st_addresses s ! i) addressVector = Inr d"
    using Cons.prems hamming_distance_indexed_ok [of "st_addresses s ! i" addressVector] by auto
  have i: "i < length (st_addresses s)"
    using Cons.prems by simp
  show ?case
  proof (cases "st_in_radius s addressVector i")
    case False
    then have far: "\<not> of_int d \<le> st_radius s"
      by (simp add: st_in_radius_def d)
    have "sdmTest_lookup_loop (i # is) s addressVector retrieved =
          sdmTest_lookup_loop is s addressVector retrieved"
      using i far by (simp add: d)
    with False Cons.IH [of retrieved] Cons.prems show ?thesis
      by simp
  next
    case True
    then have near: "of_int d \<le> st_radius s"
      by (simp add: st_in_radius_def d)
    define r where "r = map (\<lambda>j. retrieved ! j + st_data s ! i ! j) [0..<length retrieved]"
    have "lookup_row [0..<length retrieved] i (st_data s) retrieved = Inr r"
      unfolding r_def using Cons.prems by (intro lookup_row_full) simp_all
    then have "lookup_row [0..<nat (st_n s)] i (st_data s) retrieved = Inr r"
      using Cons.prems by simp
    then have "sdmTest_lookup_loop (i # is) s addressVector retrieved =
          sdmTest_lookup_loop is s addressVector r"
      using i near by (simp add: d)
    also have "\<dots> = Inr (map (\<lambda>j. r ! j +
                 sum_list (map (\<lambda>i. st_data s ! i ! j) (filter (st_in_radius s addressVector) is)))
            [0..<nat (st_n s)])"
      using Cons.prems by (intro Cons.IH) (simp_all add: r_def)
    also have "map (\<lambda>j. r ! j +
                 sum_list (map (\<lambda>i. st_data s ! i ! j) (filter (st_in_radius s addressVector) is)))
            [0..<nat (st_n s)] =
          map (\<lambda>j. retrieved ! j +
                 sum_list (map (\<lambda>i. st_data s ! i ! j) (filter (st_in_radius s addressVector) (i # is))))
            [0..<nat (st_n s)]"
      using True Cons.prems by (intro map_cong [OF refl]) (simp add: r_def)
    finally show ?thesis .
  qed
qed

lemma sdmTest_lookup_well_formed:
  assumes "st_well_formed s" "nat (st_n s) \<le> length addressVector"
  shows "sdmTest_lookup s addressVector =
     Inr (map (\<lambda>j. if 0 \<le> st_accumulator s addressVector j then 1 else 0) [0..<nat (st_n s)])"
proof -
  have rows: "\<forall>i \<in> set [0..<nat (st_p s)].
      i < length (st_addresses s) \<and> length (st_addresses s ! i) \<le> length addressVector \<and>
      i < length (st_data s) \<and> nat (st_n s) \<le> length (st_data s ! i)"
    using assms by (simp add: st_well_formed_def list_all_length)
  have "sdmTest_lookup_loop [0..<nat (st_p s)] s addressVector (replicate (nat (st_n s)) 0) =
     Inr (map (\<lambda>j. replicate (nat (st_n s)) 0 ! j +
                 sum_list (map (\<lambda>i. st_data s ! i ! j)
                   (filter (st_in_radius s addressVector) [0..<nat (st_p s)])))
            [0..<nat (st_n s)])"
    using rows by (intro sdmTest_lookup_loop_result) simp_all
  also have "map (\<lambda>j. replicate (nat (st_n s)) 0 ! j +
                 sum_list (map (\<lambda>i. st_data s ! i ! j)
                   (filter (st_in_radius s addressVector) [0..<nat (st_p s)])))
            [0..<nat (st_n s)] =
          map (st_accumulator s addressVector) [0..<nat (st_n s)]"
    by (intro map_cong [OF refl]) (simp add: st_accumulator_def)
  finally show ?thesis
    by (simp add: sdmTest_lookup_def comp_def)
qed


text \<open>
  C4, as the code has it. On a well-formed memory and a key of at most \<open>n\<close> elements,
  \<^verbatim>\<open>lookup\<close> of \<^verbatim>\<open>compression_test.py\<close> sets bit \<open>j\<close> to 1 exactly when the sum of the
  counters at position \<open>j\<close> of the addresses within the radius is above zero; \<^verbatim>\<open>lookup\<close>
  of \<^verbatim>\<open>sdmTest.py\<close> sets it to 1 exactly when that sum is at least zero, so there a
  sum of zero gives 1.
\<close>

theorem lookup_threshold:
  "(well_formed s n \<and> length key_vector \<le> n \<longrightarrow>
      lookup s key_vector =
        Inr (map (\<lambda>j. if 0 < accumulator s key_vector j then 1 else 0) [0..<length key_vector])) \<and>
   (st_well_formed t \<and> nat (st_n t) \<le> length addressVector \<longrightarrow>
      sdmTest_lookup t addressVector =
        Inr (map (\<lambda>j. if 0 \<le> st_accumulator t addressVector j then 1 else 0) [0..<nat (st_n t)]))"
  using lookup_well_formed [of s n key_vector] sdmTest_lookup_well_formed [of t addressVector]
  by blast

theorem lookup_threshold_witness:
  "lookup \<lparr>sdm_p = 1, sdm_n = 2, sdm_keys = [[0, 1]], sdm_data = [[0, 3]], sdm_radius = 0\<rparr> [0, 1] =
     Inr [0, 1] \<and>
   sdmTest_lookup \<lparr>st_p = 1, st_n = 2, st_addresses = [[0, 1]], st_data = [[0, - 3]],
       st_radius = 8124493727776375 / 9007199254740992\<rparr> [0, 1] = Inr [1, 0]"
proof -
  have a: "well_formed \<lparr>sdm_p = 1, sdm_n = 2, sdm_keys = [[0, 1]], sdm_data = [[0, 3]],
      sdm_radius = 0\<rparr> 2 \<and> length [0, 1 :: int] \<le> 2"
    by (simp add: well_formed_def)
  have b: "st_well_formed \<lparr>st_p = 1, st_n = 2, st_addresses = [[0, 1]], st_data = [[0, - 3]],
       st_radius = 8124493727776375 / 9007199254740992\<rparr> \<and>
       nat (st_n \<lparr>st_p = 1, st_n = 2, st_addresses = [[0, 1]], st_data = [[0, - 3]],
       st_radius = 8124493727776375 / 9007199254740992\<rparr>) \<le> length [0, 1 :: int]"
    by (simp add: st_well_formed_def)
  have near: "in_radius \<lparr>sdm_p = 1, sdm_n = 2, sdm_keys = [[0, 1]], sdm_data = [[0, 3]],
      sdm_radius = 0\<rparr> [0, 1] 0"
    by (simp add: in_radius_def hamming_distance_def)
  have st_near: "st_in_radius \<lparr>st_p = 1, st_n = 2, st_addresses = [[0, 1]], st_data = [[0, - 3]],
       st_radius = 8124493727776375 / 9007199254740992\<rparr> [0, 1] 0"
    by (simp add: st_in_radius_def hamming_distance_indexed_def upt_rec numeral_eq_Suc)
  have two: "[0..<2] = [0, Suc 0]"
    by (simp add: upt_rec)
  show ?thesis
    using lookup_threshold [of "\<lparr>sdm_p = 1, sdm_n = 2, sdm_keys = [[0, 1]], sdm_data = [[0, 3]],
        sdm_radius = 0\<rparr>" 2 "[0, 1]"
      "\<lparr>st_p = 1, st_n = 2, st_addresses = [[0, 1]], st_data = [[0, - 3]],
       st_radius = 8124493727776375 / 9007199254740992\<rparr>" "[0, 1]"] a b near st_near
    by (simp add: accumulator_def st_accumulator_def two)
qed

theorem lookup_threshold_counterexample:
  "sdmTest_lookup \<lparr>st_p = 1, st_n = 2, st_addresses = [[0, 1]], st_data = [[0, 0]],
       st_radius = 8124493727776375 / 9007199254740992\<rparr> [0, 1] = Inr [1, 1] \<and>
   st_accumulator \<lparr>st_p = 1, st_n = 2, st_addresses = [[0, 1]], st_data = [[0, 0]],
       st_radius = 8124493727776375 / 9007199254740992\<rparr> [0, 1] 0 = 0 \<and>
   st_accumulator \<lparr>st_p = 1, st_n = 2, st_addresses = [[0, 1]], st_data = [[0, 0]],
       st_radius = 8124493727776375 / 9007199254740992\<rparr> [0, 1] 1 = 0"
  by (simp add: sdmTest_lookup_def hamming_distance_indexed_def st_accumulator_def st_in_radius_def
      upt_rec numeral_eq_Suc)

text \<open>
  C5, as the code has it. For a vector length \<open>0 \<le> n < 2^40\<close> the constructor of
  \<^verbatim>\<open>compression_test.py\<close> stores the integer \<open>\<lfloor>0.451 \<times> n\<rfloor>\<close>. The constructors of
  \<^verbatim>\<open>sdmTest.py\<close> and \<^verbatim>\<open>sparse_malicious_memory.py\<close> store the float product itself,
  without a floor; a Hamming distance is at most that float exactly when it is at most
  \<open>\<lfloor>0.451 \<times> n\<rfloor>\<close>.
\<close>

theorem radius_floor:
  "0 \<le> n \<and> n < 2 ^ 40 \<longrightarrow>
     compression_test_radius n = Inr \<lfloor>(451 / 1000 :: rat) * of_int n\<rfloor> \<and>
     (\<exists>s. SDM_init seed_rng randint01 p n seed = Inr s \<and>
          sdm_radius s = \<lfloor>(451 / 1000 :: rat) * of_int n\<rfloor>) \<and>
     (\<exists>x. sdmTest_radius n = Inr x \<and> sparse_malicious_memory_radius n = Inr x \<and>
          (\<forall>hdist :: int. of_int hdist \<le> x \<longleftrightarrow> hdist \<le> \<lfloor>(451 / 1000 :: rat) * of_int n\<rfloor>))"
proof
  assume "0 \<le> n \<and> n < 2 ^ 40"
  then have n: "0 \<le> n" "n < 2 ^ 40"
    by simp_all
  define x :: rat where
    "x = of_nat (round_to_53_bits (float_0451_mantissa * nat n)) / of_nat (2 ^ 54)"
  have rad: "compression_test_radius n = Inr \<lfloor>(451 / 1000 :: rat) * of_int n\<rfloor>"
    using n by (rule compression_test_radius_floor)
  then have init: "\<exists>s. SDM_init seed_rng randint01 p n seed = Inr s \<and>
          sdm_radius s = \<lfloor>(451 / 1000 :: rat) * of_int n\<rfloor>"
    by (simp add: SDM_init_def)
  have prod: "py_float_mul_0451 n = Inr x"
    unfolding x_def using n by (rule py_float_mul_0451_nonneg)
  have fl: "\<lfloor>x\<rfloor> = \<lfloor>(451 / 1000 :: rat) * of_int n\<rfloor>"
    unfolding x_def using n by (rule float_0451_floor_rat)
  have "of_int hdist \<le> x \<longleftrightarrow> hdist \<le> \<lfloor>(451 / 1000 :: rat) * of_int n\<rfloor>" for hdist :: int
  proof -
    have "of_int hdist \<le> x \<longleftrightarrow> hdist \<le> \<lfloor>x\<rfloor>"
      by (rule le_floor_iff [symmetric])
    then show ?thesis
      by (simp only: fl)
  qed
  then have "\<forall>hdist :: int. of_int hdist \<le> x \<longleftrightarrow> hdist \<le> \<lfloor>(451 / 1000 :: rat) * of_int n\<rfloor>"
    by blast
  with prod have "\<exists>x. sdmTest_radius n = Inr x \<and> sparse_malicious_memory_radius n = Inr x \<and>
          (\<forall>hdist :: int. of_int hdist \<le> x \<longleftrightarrow> hdist \<le> \<lfloor>(451 / 1000 :: rat) * of_int n\<rfloor>)"
    unfolding sdmTest_radius_def sparse_malicious_memory_radius_def by blast
  with rad init show "compression_test_radius n = Inr \<lfloor>(451 / 1000 :: rat) * of_int n\<rfloor> \<and>
     (\<exists>s. SDM_init seed_rng randint01 p n seed = Inr s \<and>
          sdm_radius s = \<lfloor>(451 / 1000 :: rat) * of_int n\<rfloor>) \<and>
     (\<exists>x. sdmTest_radius n = Inr x \<and> sparse_malicious_memory_radius n = Inr x \<and>
          (\<forall>hdist :: int. of_int hdist \<le> x \<longleftrightarrow> hdist \<le> \<lfloor>(451 / 1000 :: rat) * of_int n\<rfloor>))"
    by blast
qed

theorem radius_floor_witness:
  "(0 :: int) \<le> 256 \<and> (256 :: int) < 2 ^ 40 \<and>
   compression_test_radius 256 = Inr 115 \<and>
   \<lfloor>(451 / 1000 :: rat) * of_int 256\<rfloor> = 115"
proof -
  have a: "(0 :: int) \<le> 256 \<and> (256 :: int) < 2 ^ 40"
    by simp
  have b: "\<lfloor>(451 / 1000 :: rat) * of_int 256\<rfloor> = 115"
    by (simp only: floor_0451)
  have "compression_test_radius 256 = Inr \<lfloor>(451 / 1000 :: rat) * of_int 256\<rfloor>"
    using radius_floor [of 256] a by blast
  with a b show ?thesis
    by simp
qed

theorem radius_floor_counterexample:
  "sdmTest_radius 256 = Inr (8124493727776375 / 70368744177664) \<and>
   sparse_malicious_memory_radius 256 = Inr (8124493727776375 / 70368744177664) \<and>
   \<lfloor>(451 / 1000 :: rat) * of_int 256\<rfloor> = 115 \<and>
   (8124493727776375 / 70368744177664 :: rat) \<noteq> 115"
proof -
  have "\<lfloor>(451 / 1000 :: rat) * of_int 256\<rfloor> = 115"
    by (simp only: floor_0451)
  moreover have "(8124493727776375 / 70368744177664 :: rat) \<noteq> 115"
    by simp
  ultimately show ?thesis
    by (simp only: sdmTest_radius_def sparse_malicious_memory_radius_def float_radius_256) simp
qed

text \<open>
  C9. The constructor of the memory and \<^verbatim>\<open>generate_key_vectors\<close> both seed the generator
  with the default seed 42 and draw the same vectors in the same order. So for an index
  below both the number of chunk keys and the number of addresses, the chunk key is the
  address: their Hamming distance is zero. The chunk keys of another file (another
  number of keys) are the same at every common index, and so are the addresses within
  their radius.
\<close>

theorem same_seed_same_keys:
  assumes "SDM_init seed_rng randint01 p n default_seed = Inr s"
    and "i < nat num_keys" "i < nat p"
  shows "generate_key_vectors seed_rng randint01 num_keys n default_seed ! i = sdm_keys s ! i \<and>
         hamming_distance (generate_key_vectors seed_rng randint01 num_keys n default_seed ! i)
           (sdm_keys s ! i) = 0 \<and>
         (i < nat other_num_keys \<longrightarrow>
            generate_key_vectors seed_rng randint01 other_num_keys n default_seed ! i =
              generate_key_vectors seed_rng randint01 num_keys n default_seed ! i \<and>
            (\<forall>j. in_radius s (generate_key_vectors seed_rng randint01 other_num_keys n default_seed ! i) j =
                 in_radius s (generate_key_vectors seed_rng randint01 num_keys n default_seed ! i) j))"
proof -
  have keys: "sdm_keys s = fst (draw_vectors randint01 (nat p) (nat n) (seed_rng default_seed))"
    using assms(1) by (auto simp: SDM_init_def split: sum.splits)
  have same: "generate_key_vectors seed_rng randint01 num_keys n default_seed ! i = sdm_keys s ! i"
    unfolding keys generate_key_vectors_def using assms(2,3) by (rule draw_vectors_prefix)
  have other: "generate_key_vectors seed_rng randint01 other_num_keys n default_seed ! i =
              generate_key_vectors seed_rng randint01 num_keys n default_seed ! i"
    if "i < nat other_num_keys"
    unfolding generate_key_vectors_def using that assms(2) by (rule draw_vectors_prefix)
  show ?thesis
    using same other by (simp add: hamming_distance_self)
qed

theorem same_seed_same_keys_witness:
  "SDM_init (\<lambda>seed. seed) (\<lambda>g. (g mod 2, g div 2)) 2 2 default_seed =
     Inr \<lparr>sdm_p = 2, sdm_n = 2, sdm_keys = [[0, 1], [0, 1]], sdm_data = [[0, 0], [0, 0]],
          sdm_radius = 0\<rparr> \<and>
   generate_key_vectors (\<lambda>seed. seed) (\<lambda>g. (g mod 2, g div 2)) 3 2 default_seed ! 1 =
     [0, 1]"
proof -
  have rad: "compression_test_radius 2 = Inr 0"
  proof -
    have "compression_test_radius 2 = Inr \<lfloor>(451 / 1000 :: rat) * of_int 2\<rfloor>"
      by (rule compression_test_radius_floor) simp_all
    then show ?thesis
      by (simp only: floor_0451) simp
  qed
  have init: "SDM_init (\<lambda>seed. seed) (\<lambda>g. (g mod 2, g div 2)) 2 2 default_seed =
     Inr \<lparr>sdm_p = 2, sdm_n = 2, sdm_keys = [[0, 1], [0, 1]], sdm_data = [[0, 0], [0, 0]],
          sdm_radius = 0\<rparr>"
    by (simp add: SDM_init_def rad default_seed_def numeral_2_eq_2)
  have "(1 :: nat) < nat 3" "(1 :: nat) < nat 2"
    by simp_all
  with init show ?thesis
    using same_seed_same_keys [of "\<lambda>seed. seed" "\<lambda>g. (g mod 2, g div 2)" 2 2
        "\<lparr>sdm_p = 2, sdm_n = 2, sdm_keys = [[0, 1], [0, 1]], sdm_data = [[0, 0], [0, 0]],
          sdm_radius = 0\<rparr>" 1 3]
    by simp
qed

end
